theory Spec2Isabelle
  imports Main "HOL-Library.AList" "HOL-Library.Sublist"
begin

section \<open>Python values, exceptions and strings\<close>

text \<open>
  Exceptions of the program are values: every function that can raise returns
  \<open>error + 'a\<close>, with \<open>Inl\<close> the exception.
\<close>

datatype error =
    RequestCountError
  | UnsuccessfulRequestError
  | KeyError
  | IndexError
  | ValueError
  | TypeError
  | RuntimeError
  | FileNotFoundError
  | UnicodeDecodeError

text \<open>
  The values a metadata record holds: \<open>None\<close>, ints, lists and dicts with string keys.
  A dict is an association list in insertion order, as a Python dict is.
\<close>

datatype pyval =
    PNone
  | PInt int
  | PList "pyval list"
  | PDict "(string \<times> pyval) list"

text \<open>
  The key a record is stored under. \<open>main\<close> of download_liked_tweets.py passes the
  Python builtin function \<open>id\<close> as key, so a key is a user ID or that builtin.
\<close>

datatype entity = Usr string | BuiltinId

definition digit_char :: "nat \<Rightarrow> char" where
  "digit_char d = char_of (48 + d)"

fun str_nat :: "nat \<Rightarrow> string" where
  "str_nat n = (if n < 10 then [digit_char n] else str_nat (n div 10) @ [digit_char (n mod 10)])"

declare str_nat.simps [simp del]

definition str_int :: "int \<Rightarrow> string" where
  "str_int i = (if i < 0 then CHR ''-'' # str_nat (nat (- i)) else str_nat (nat i))"

definition str_entity :: "entity \<Rightarrow> string" where
  "str_entity e = (case e of Usr s \<Rightarrow> s | BuiltinId \<Rightarrow> ''<built-in function id>'')"

fun join :: "string \<Rightarrow> string list \<Rightarrow> string" where
  "join sep [] = []"
| "join sep [x] = x"
| "join sep (x # y # ys) = x @ sep @ join sep (y # ys)"

definition is_digit :: "char \<Rightarrow> bool" where
  "is_digit c = (48 \<le> (of_char c :: nat) \<and> (of_char c :: nat) \<le> 57)"

text \<open>\<open>str\<close> of a value, as \<open>"%s" % v\<close> formats it.\<close>

fun py_str :: "pyval \<Rightarrow> string" where
  "py_str PNone = ''None''"
| "py_str (PInt i) = str_int i"
| "py_str (PList xs) = ''['' @ join '', '' (map py_str xs) @ '']''"
| "py_str (PDict kvs) =
     ''{'' @ join '', '' (map (\<lambda>kv. [CHR 0x27] @ fst kv @ [CHR 0x27] @ '': '' @ py_str (snd kv)) kvs) @ ''}''"

text \<open>
  \<open>json.dumps\<close> with its default separators. Keys are written between double quotes
  without escapes: the keys of this program are plain ASCII names.
\<close>

fun json_dumps :: "pyval \<Rightarrow> string" where
  "json_dumps PNone = ''null''"
| "json_dumps (PInt i) = str_int i"
| "json_dumps (PList xs) = ''['' @ join '', '' (map json_dumps xs) @ '']''"
| "json_dumps (PDict kvs) =
     ''{'' @ join '', '' (map (\<lambda>kv. [CHR 0x22] @ fst kv @ [CHR 0x22] @ '': '' @ json_dumps (snd kv)) kvs) @ ''}''"

text \<open>\<open>s.split(sep)\<close> for a one-character separator: never an empty list.\<close>

fun split_on :: "char \<Rightarrow> string \<Rightarrow> string list" where
  "split_on c [] = [[]]"
| "split_on c (x # xs) =
     (if x = c then [] # split_on c xs
      else (case split_on c xs of [] \<Rightarrow> [[x]] | y # ys \<Rightarrow> (x # y) # ys))"

text \<open>
  A Python \<open>str\<close> is carried as the bytes of its UTF-8 encoding and a \<open>bytes\<close> object
  as its bytes, both of type \<open>string\<close>. \<open>val.decode("utf-8")\<close> then returns the bytes
  it is given when they are well-formed UTF-8 (no overlong form, no surrogate, nothing
  above U+10FFFF) and raises \<open>UnicodeDecodeError\<close> otherwise. A file opened in text
  mode is taken to use the same codec.
\<close>

definition cont_byte :: "nat \<Rightarrow> bool" where
  "cont_byte b = (128 \<le> b \<and> b \<le> 191)"

fun utf8_ok :: "nat list \<Rightarrow> bool" where
  "utf8_ok [] = True"
| "utf8_ok (a # bs) =
     (if a < 128 then utf8_ok bs
      else if 194 \<le> a \<and> a \<le> 223 then
        (case bs of
           b # r \<Rightarrow> cont_byte b \<and> utf8_ok r
         | _ \<Rightarrow> False)
      else if 224 \<le> a \<and> a \<le> 239 then
        (case bs of
           b # c # r \<Rightarrow>
             (if a = 224 then 160 else 128) \<le> b \<and> b \<le> (if a = 237 then 159 else 191) \<and>
             cont_byte c \<and> utf8_ok r
         | _ \<Rightarrow> False)
      else if 240 \<le> a \<and> a \<le> 244 then
        (case bs of
           b # c # d # r \<Rightarrow>
             (if a = 240 then 144 else 128) \<le> b \<and> b \<le> (if a = 244 then 143 else 191) \<and>
             cont_byte c \<and> cont_byte d \<and> utf8_ok r
         | _ \<Rightarrow> False)
      else False)"

definition utf8_decode :: "string \<Rightarrow> error + string" where
  "utf8_decode bs = (if utf8_ok (map of_char bs) then Inr bs else Inl UnicodeDecodeError)"

text \<open>
  \<open>str.strip()\<close>. \<open>space_seqs\<close> are the UTF-8 encodings of the characters Python
  counts as whitespace: U+0009 to U+000D, U+001C to U+0020, U+0085, U+00A0, U+1680,
  U+2000 to U+200A, U+2028, U+2029, U+202F, U+205F and U+3000. \<open>strip\<close> removes them
  from both ends of an encoded string. \<open>is_space\<close> is the test for the whitespace
  characters below 128.
\<close>

definition space_seqs :: "string list" where
  "space_seqs =
     [[CHR 0x09], [CHR 0x0A], [CHR 0x0B], [CHR 0x0C], [CHR 0x0D],
      [CHR 0x1C], [CHR 0x1D], [CHR 0x1E], [CHR 0x1F], [CHR 0x20],
      [CHR 0xC2, CHR 0x85], [CHR 0xC2, CHR 0xA0], [CHR 0xE1, CHR 0x9A, CHR 0x80],
      [CHR 0xE2, CHR 0x80, CHR 0x80], [CHR 0xE2, CHR 0x80, CHR 0x81], [CHR 0xE2, CHR 0x80, CHR 0x82],
      [CHR 0xE2, CHR 0x80, CHR 0x83], [CHR 0xE2, CHR 0x80, CHR 0x84], [CHR 0xE2, CHR 0x80, CHR 0x85],
      [CHR 0xE2, CHR 0x80, CHR 0x86], [CHR 0xE2, CHR 0x80, CHR 0x87], [CHR 0xE2, CHR 0x80, CHR 0x88],
      [CHR 0xE2, CHR 0x80, CHR 0x89], [CHR 0xE2, CHR 0x80, CHR 0x8A],
      [CHR 0xE2, CHR 0x80, CHR 0xA8], [CHR 0xE2, CHR 0x80, CHR 0xA9], [CHR 0xE2, CHR 0x80, CHR 0xAF],
      [CHR 0xE2, CHR 0x81, CHR 0x9F], [CHR 0xE3, CHR 0x80, CHR 0x80]]"

function strip_front :: "string list \<Rightarrow> string \<Rightarrow> string" where
  "strip_front seqs s =
     (case find (\<lambda>p. p \<noteq> [] \<and> prefix p s) seqs of
        None \<Rightarrow> s
      | Some p \<Rightarrow> strip_front seqs (drop (length p) s))"
  by pat_completeness auto
termination
  by (relation "measure (\<lambda>(seqs, s). length s)") (auto simp: find_Some_iff prefix_def)

declare strip_front.simps [simp del]

definition strip :: "string \<Rightarrow> string" where
  "strip s = rev (strip_front (map rev space_seqs) (rev (strip_front space_seqs s)))"

definition is_space :: "char \<Rightarrow> bool" where
  "is_space c = (of_char c \<in> {9, 10, 11, 12, 13, 28, 29, 30, 31, 32 :: nat})"

text \<open>\<open>xs[i]\<close> on a list: \<open>-1\<close> is the last element, and so on down to \<open>-len(xs)\<close>.\<close>

definition py_index :: "'a list \<Rightarrow> int \<Rightarrow> error + 'a" where
  "py_index xs i =
     (if 0 \<le> i \<and> i < int (length xs) then Inr (xs ! nat i)
      else if i < 0 \<and> - int (length xs) \<le> i then Inr (xs ! nat (int (length xs) + i))
      else Inl IndexError)"

section \<open>persistent\_data.py: the metadata store\<close>

definition default_vals :: pyval where
  "default_vals = PDict
     [(''twt_db'', PDict [(''file_num'', PInt 1), (''line_count'', PList [])]),
      (''liked_tweets'', PDict [(''count'', PInt 0), (''with_external_urls'', PInt 0)]),
      (''imgs_downloaded'', PInt 0),
      (''requests_made'', PInt 0)]"

text \<open>
  \<open>DataWrapper._traverse(key, create)\<close> returns a reference to the dict that holds the
  last component of the dotted key. The model walks the components before the last
  (\<open>klist[0:-1]\<close>); without \<open>create\<close> it returns the dict reached, with \<open>create\<close> it
  runs an operation on the dict reached and rebuilds the record around the result, so
  that the dicts created on the way stay in the record even when the operation fails.
\<close>

fun traverse :: "string list \<Rightarrow> pyval \<Rightarrow> error + pyval" where
  "traverse [] d = Inr d"
| "traverse (k # ks) d =
     (case d of
        PDict kvs \<Rightarrow> (case map_of kvs k of None \<Rightarrow> Inl KeyError | Some sub \<Rightarrow> traverse ks sub)
      | _ \<Rightarrow> Inl KeyError)"

fun traverse_create :: "string list \<Rightarrow> (pyval \<Rightarrow> (error + 'a) \<times> pyval) \<Rightarrow> pyval \<Rightarrow> (error + 'a) \<times> pyval" where
  "traverse_create [] oper d = oper d"
| "traverse_create (k # ks) oper d =
     (case d of
        PDict kvs \<Rightarrow>
          (let sub = (case map_of kvs k of None \<Rightarrow> PDict [] | Some s \<Rightarrow> s);
               r = traverse_create ks oper sub
           in (fst r, PDict (AList.update k (snd r) kvs)))
      | _ \<Rightarrow> (Inl KeyError, d))"

text \<open>\<open>fdict[fkey]\<close>, \<open>fkey in fdict\<close> and \<open>fdict[fkey] = v\<close> with a string key.\<close>

definition py_getitem :: "pyval \<Rightarrow> string \<Rightarrow> error + pyval" where
  "py_getitem d k =
     (case d of
        PDict kvs \<Rightarrow> (case map_of kvs k of None \<Rightarrow> Inl KeyError | Some v \<Rightarrow> Inr v)
      | _ \<Rightarrow> Inl TypeError)"

definition py_contains :: "pyval \<Rightarrow> string \<Rightarrow> error + bool" where
  "py_contains d k =
     (case d of
        PDict kvs \<Rightarrow> Inr (map_of kvs k \<noteq> None)
      | PList xs \<Rightarrow> Inr False
      | _ \<Rightarrow> Inl TypeError)"

definition py_setitem :: "pyval \<Rightarrow> string \<Rightarrow> pyval \<Rightarrow> error + pyval" where
  "py_setitem d k v =
     (case d of
        PDict kvs \<Rightarrow> Inr (PDict (AList.update k v kvs))
      | _ \<Rightarrow> Inl TypeError)"

definition key_prefix :: "string \<Rightarrow> string list" where
  "key_prefix key = butlast (split_on CHR ''.'' key)"

definition key_last :: "string \<Rightarrow> string" where
  "key_last key = last (split_on CHR ''.'' key)"

text \<open>\<open>DataWrapper._get\<close>; the default \<open>None\<close> is \<open>PNone\<close>.\<close>

definition dw_get :: "pyval \<Rightarrow> string \<Rightarrow> pyval \<Rightarrow> error + pyval" where
  "dw_get d key dflt =
     (let r = (case traverse (key_prefix key) d of
                 Inl e \<Rightarrow> Inl e
               | Inr fdest \<Rightarrow> py_getitem fdest (key_last key))
      in case r of
           Inl KeyError \<Rightarrow> (if dflt \<noteq> PNone then Inr dflt else Inl KeyError)
         | _ \<Rightarrow> r)"

text \<open>\<open>DataWrapper._get_in_list\<close>.\<close>

definition dw_get_in_list :: "pyval \<Rightarrow> string \<Rightarrow> int \<Rightarrow> pyval \<Rightarrow> error + pyval" where
  "dw_get_in_list d key index dflt =
     (let r = (case traverse (key_prefix key) d of
                 Inl e \<Rightarrow> Inl e
               | Inr fdest \<Rightarrow>
                   (case py_getitem fdest (key_last key) of
                      Inl e \<Rightarrow> Inl e
                    | Inr (PList get_list) \<Rightarrow> py_index get_list index
                    | Inr _ \<Rightarrow> Inl ValueError))
      in case r of
           Inl KeyError \<Rightarrow> (if dflt \<noteq> PNone then Inr dflt else Inl KeyError)
         | Inl IndexError \<Rightarrow> (if dflt \<noteq> PNone then Inr dflt else Inl IndexError)
         | _ \<Rightarrow> r)"

text \<open>
  The body of \<open>DataWrapper._set\<close> on the dict \<open>fdict\<close>. \<open>set_func\<close> is absent
  (\<open>None\<close>) or a function that may raise.
\<close>

definition set_in_dict :: "string \<Rightarrow> pyval \<Rightarrow> (pyval \<Rightarrow> error + pyval) option \<Rightarrow> pyval \<Rightarrow> (error + bool) \<times> pyval" where
  "set_in_dict fkey val set_func fdict =
     (case py_contains fdict fkey of
        Inl e \<Rightarrow> (Inl e, fdict)
      | Inr present \<Rightarrow>
          (case (if present then py_getitem fdict fkey else Inr PNone) of
             Inl e \<Rightarrow> (Inl e, fdict)
           | Inr prev_val \<Rightarrow>
               (case (case set_func of None \<Rightarrow> Inr val | Some f \<Rightarrow> f prev_val) of
                  Inl e \<Rightarrow> (Inl e, fdict)
                | Inr v \<Rightarrow>
                    if v \<in> set [PNone, prev_val] then (Inr False, fdict)
                    else (case py_setitem fdict fkey v of
                            Inl e \<Rightarrow> (Inl e, fdict)
                          | Inr fdict' \<Rightarrow> (Inr True, fdict')))))"

definition dw_set :: "pyval \<Rightarrow> string \<Rightarrow> pyval \<Rightarrow> (pyval \<Rightarrow> error + pyval) option \<Rightarrow> (error + bool) \<times> pyval" where
  "dw_set d key val set_func =
     traverse_create (key_prefix key) (set_in_dict (key_last key) val set_func) d"

text \<open>The body of \<open>DataWrapper._set_in_list\<close> on the dict \<open>fdict\<close>.\<close>

definition set_in_list_in_dict :: "string \<Rightarrow> int \<Rightarrow> pyval \<Rightarrow> (pyval \<Rightarrow> error + pyval) option \<Rightarrow> pyval \<Rightarrow> (error + bool) \<times> pyval" where
  "set_in_list_in_dict fkey index val set_func fdict =
     (case py_contains fdict fkey of
        Inl e \<Rightarrow> (Inl e, fdict)
      | Inr present \<Rightarrow>
          (case (if present then py_getitem fdict fkey else Inr (PList [])) of
             Inl e \<Rightarrow> (Inl e, fdict)
           | Inr (PList orig_list) \<Rightarrow>
               (let orig_len = int (length orig_list);
                    need_append = (orig_len \<le> index);
                    work_list = (if need_append then replicate (nat (index - orig_len + 1)) PNone
                                 else orig_list);
                    work_index = (if need_append then index - orig_len else index)
                in case py_index work_list work_index of
                     Inl e \<Rightarrow> (Inl e, fdict)
                   | Inr old \<Rightarrow>
                       (case (case set_func of None \<Rightarrow> Inr val | Some f \<Rightarrow> f old) of
                          Inl e \<Rightarrow> (Inl e, fdict)
                        | Inr v \<Rightarrow>
                            if v \<in> set [PNone, old] then (Inr False, fdict)
                            else
                              (let j = nat (if work_index < 0 then int (length work_list) + work_index
                                            else work_index);
                                   work_list' = work_list[j := v];
                                   new_list = (if need_append then orig_list @ work_list' else work_list')
                               in case py_setitem fdict fkey (PList new_list) of
                                    Inl e \<Rightarrow> (Inl e, fdict)
                                  | Inr fdict' \<Rightarrow> (Inr True, fdict'))))
           | Inr _ \<Rightarrow> (Inl ValueError, fdict)))"

definition dw_set_in_list :: "pyval \<Rightarrow> string \<Rightarrow> int \<Rightarrow> pyval \<Rightarrow> (pyval \<Rightarrow> error + pyval) option \<Rightarrow> (error + bool) \<times> pyval" where
  "dw_set_in_list d key index val set_func =
     traverse_create (key_prefix key) (set_in_list_in_dict (key_last key) index val set_func) d"

text \<open>
  \<open>DataWrapper._del\<close>: the walk does not create; a \<open>KeyError\<close> on the way is caught.
\<close>

fun traverse_del :: "string list \<Rightarrow> string \<Rightarrow> pyval \<Rightarrow> (error + bool) \<times> pyval" where
  "traverse_del [] fkey d =
     (case py_contains d fkey of
        Inl e \<Rightarrow> (Inl e, d)
      | Inr present \<Rightarrow>
          (case d of
             PDict kvs \<Rightarrow> (if present then (Inr True, PDict (AList.delete fkey kvs)) else (Inr False, d))
           | _ \<Rightarrow> (Inr False, d)))"
| "traverse_del (k # ks) fkey d =
     (case d of
        PDict kvs \<Rightarrow>
          (case map_of kvs k of
             None \<Rightarrow> (Inr False, d)
           | Some sub \<Rightarrow>
               (let r = traverse_del ks fkey sub
                in (fst r, PDict (AList.update k (snd r) kvs))))
      | _ \<Rightarrow> (Inr False, d))"

definition dw_del :: "pyval \<Rightarrow> string \<Rightarrow> (error + bool) \<times> pyval" where
  "dw_del d key = traverse_del (key_prefix key) (key_last key) d"


subsection \<open>Module state\<close>

text \<open>
  The globals of the modules and the part of the outside world the program acts on, in
  one record: the metadata store (\<open>_loaded_data\<close>, \<open>_data_modified\<close>), the file system
  (directories, text files by path, the block size \<open>os.fstat\<close> reports), the API
  client (\<open>requests_count\<close>, the URLs requested so far, \<open>external_urls\<close>) and the sync
  engine (\<open>processed_tweets\<close>, \<open>new_processed_tweets\<close>, \<open>is_verbose\<close>, the image
  URLs saved to disk). Paths are compared as strings.
\<close>

record world =
  loaded_data :: "entity \<rightharpoonup> pyval"
  data_modified :: "entity list"
  dirs :: "string set"
  files :: "string \<rightharpoonup> string"
  st_blksize :: int
  requests_count :: int
  sent :: "string list"
  external_urls :: "(string \<times> string list) list"
  processed_tweets :: "string list"
  new_processed_tweets :: "string list"
  saved_imgs :: "string list"
  is_verbose :: bool

definition set_as_modified :: "world \<Rightarrow> entity \<Rightarrow> world" where
  "set_as_modified w i =
     (if i \<in> set (data_modified w) then w else w\<lparr>data_modified := data_modified w @ [i]\<rparr>)"

definition default_if_nonexistent :: "world \<Rightarrow> entity \<Rightarrow> world" where
  "default_if_nonexistent w i =
     (if loaded_data w i = None
      then set_as_modified (w\<lparr>loaded_data := (loaded_data w)(i \<mapsto> default_vals)\<rparr>) i
      else w)"

text \<open>
  \<open>get_data\<close> with a key (the ID is given: the \<open>None\<close> checks of the module are outside
  the model, as the callers always pass one).
\<close>

definition get_data :: "world \<Rightarrow> entity \<Rightarrow> string \<Rightarrow> int option \<Rightarrow> pyval \<Rightarrow> (error + pyval) \<times> world" where
  "get_data w i key index dflt =
     (let w1 = default_if_nonexistent w i
      in case loaded_data w1 i of
           None \<Rightarrow> (Inl KeyError, w1)
         | Some d \<Rightarrow>
             (case index of
                None \<Rightarrow> (dw_get d key dflt, w1)
              | Some ix \<Rightarrow> (dw_get_in_list d key ix dflt, w1)))"

definition set_data :: "world \<Rightarrow> entity \<Rightarrow> string \<Rightarrow> pyval \<Rightarrow> int option \<Rightarrow> (pyval \<Rightarrow> error + pyval) option \<Rightarrow> (error + bool) \<times> world" where
  "set_data w i key val index set_func =
     (let w1 = default_if_nonexistent w i
      in case loaded_data w1 i of
           None \<Rightarrow> (Inl KeyError, w1)
         | Some d \<Rightarrow>
             (let r = (case index of
                         Some ix \<Rightarrow> dw_set_in_list d key ix val set_func
                       | None \<Rightarrow> dw_set d key val set_func);
                  w2 = w1\<lparr>loaded_data := (loaded_data w1)(i \<mapsto> snd r)\<rparr>
              in case fst r of
                   Inl e \<Rightarrow> (Inl e, w2)
                 | Inr dset \<Rightarrow> (Inr dset, if dset then set_as_modified w2 i else w2)))"

definition del_data :: "world \<Rightarrow> entity \<Rightarrow> string option \<Rightarrow> (error + bool) \<times> world" where
  "del_data w i key =
     (case key of
        None \<Rightarrow>
          (if loaded_data w i \<noteq> None
           then (Inr True, w\<lparr>loaded_data := (loaded_data w)(i := None)\<rparr>)
           else (Inr False, w))
      | Some k \<Rightarrow>
          (case loaded_data w i of
             None \<Rightarrow> (Inl KeyError, w)
           | Some d \<Rightarrow>
               (let r = dw_del d k
                in (fst r, w\<lparr>loaded_data := (loaded_data w)(i \<mapsto> snd r)\<rparr>))))"

definition get_file :: "entity \<Rightarrow> string" where
  "get_file i = ''./'' @ str_entity i @ ''/persistent_data.json''"

definition entity_dir :: "entity \<Rightarrow> string" where
  "entity_dir i = ''./'' @ str_entity i @ ''/''"

text \<open>
  The loop of \<open>persistent_data.save_to_file\<close> over \<open>_data_modified\<close>. \<open>open(fp, "w")\<close>
  fails when the entity's directory is missing, and truncates the file before
  \<open>_loaded_data[id]\<close> is read.
\<close>

fun flush_ids :: "entity list \<Rightarrow> world \<Rightarrow> (error + unit) \<times> world" where
  "flush_ids [] w = (Inr (), w)"
| "flush_ids (i # rest) w =
     (if entity_dir i \<notin> dirs w then (Inl FileNotFoundError, w)
      else (case loaded_data w i of
              None \<Rightarrow> (Inl KeyError, w\<lparr>files := (files w)(get_file i \<mapsto> [])\<rparr>)
            | Some d \<Rightarrow> flush_ids rest (w\<lparr>files := (files w)(get_file i \<mapsto> json_dumps d)\<rparr>)))"

definition pd_save_to_file :: "world \<Rightarrow> (error + unit) \<times> world" where
  "pd_save_to_file w = flush_ids (data_modified w) w"

text \<open>
  What a flush writes: the snapshot of an ID, the last ID of a list whose snapshot file
  is \<open>p\<close>, the files after the snapshots of a list of IDs have been written in order,
  the states in which the flush meets no error, and the IDs whose snapshot can be
  written: the directory is there and the record is loaded.
\<close>

definition snapshot_of :: "world \<Rightarrow> entity \<Rightarrow> string" where
  "snapshot_of w i = (case loaded_data w i of None \<Rightarrow> [] | Some d \<Rightarrow> json_dumps d)"

fun last_writer :: "string \<Rightarrow> entity list \<Rightarrow> entity option" where
  "last_writer p [] = None"
| "last_writer p (i # rest) =
     (case last_writer p rest of
        Some j \<Rightarrow> Some j
      | None \<Rightarrow> (if get_file i = p then Some i else None))"

definition flushed_files :: "world \<Rightarrow> entity list \<Rightarrow> (string \<rightharpoonup> string)" where
  "flushed_files w ids = (\<lambda>p. case last_writer p ids of
                                None \<Rightarrow> files w p
                              | Some i \<Rightarrow> Some (snapshot_of w i))"

definition flushable :: "world \<Rightarrow> bool" where
  "flushable w = (\<forall>i\<in>set (data_modified w). entity_dir i \<in> dirs w \<and> loaded_data w i \<noteq> None)"

definition writable :: "world \<Rightarrow> entity \<Rightarrow> bool" where
  "writable w i = (entity_dir i \<in> dirs w \<and> loaded_data w i \<noteq> None)"


section \<open>file\_utils.py\<close>

definition MIN_BUFF_SIZE :: int where
  "MIN_BUFF_SIZE = 4 * 1024"

definition MAX_BUFF_SIZE :: int where
  "MAX_BUFF_SIZE = 512 * 1024"

definition class_char :: "char \<Rightarrow> bool" where
  "class_char c =
     (let n = (of_char c :: nat)
      in (97 \<le> n \<and> n \<le> 122) \<or> (65 \<le> n \<and> n \<le> 90) \<or> (48 \<le> n \<and> n \<le> 57)
         \<or> c \<in> set ''-_()[] '')"

text \<open>
  The regular expression of \<open>verify_dir_name\<close>: an optional dot, then three or more
  characters of the class; \<open>$\<close> also matches before a final newline.
\<close>

definition name_matches :: "string \<Rightarrow> bool" where
  "name_matches s =
     (let body = (\<lambda>t. 3 \<le> length t \<and> list_all class_char t);
          m = (\<lambda>t. body t \<or> (case t of [] \<Rightarrow> False | c # r \<Rightarrow> c = CHR ''.'' \<and> body r))
      in m s \<or> (s \<noteq> [] \<and> last s = CHR 0x0A \<and> m (butlast s)))"

definition strip_slashes :: "string \<Rightarrow> string" where
  "strip_slashes s =
     (let sl = (\<lambda>c. c = CHR ''/'' \<or> c = CHR 0x5C)
      in rev (dropWhile sl (rev (dropWhile sl s))))"

text \<open>\<open>verify_dir_name\<close>; its cache only memoises the result.\<close>

definition verify_dir_name :: "string \<Rightarrow> error + string" where
  "verify_dir_name dir =
     (let d1 = (if prefix ''./'' dir \<or> prefix [CHR ''.'', CHR 0x5C] dir then drop 2 dir else dir);
          d2 = strip_slashes d1
      in if \<not> name_matches d2 then Inl ValueError else Inr (d2 @ ''/''))"

definition create_folder :: "world \<Rightarrow> string \<Rightarrow> world" where
  "create_folder w dir =
     (if ''./'' @ dir \<in> dirs w then w else w\<lparr>dirs := insert (''./'' @ dir) (dirs w)\<rparr>)"

fun assemble_loop :: "string list \<Rightarrow> bool \<Rightarrow> string \<Rightarrow> world \<Rightarrow> (error + string) \<times> world" where
  "assemble_loop [] create final w = (Inr (''./'' @ final), w)"
| "assemble_loop (d # ds) create final w =
     (case verify_dir_name d of
        Inl e \<Rightarrow> (Inl e, w)
      | Inr v \<Rightarrow>
          assemble_loop ds create (final @ v)
            (if create then create_folder w (final @ v) else w))"

definition assemble_dir :: "world \<Rightarrow> string list \<Rightarrow> bool \<Rightarrow> (error + string) \<times> world" where
  "assemble_dir w ds create = assemble_loop ds create [] w"

text \<open>
  \<open>_decode_and_strip\<close>: \<open>None\<close> for what is not a bytes object, else the bytes decoded
  and stripped, or the error of the decoding.
\<close>

definition decode_and_strip :: "string option \<Rightarrow> error + string option" where
  "decode_and_strip val =
     (case val of
        None \<Rightarrow> Inr None
      | Some v \<Rightarrow> (case utf8_decode v of Inl e \<Rightarrow> Inl e | Inr s \<Rightarrow> Inr (Some (strip s))))"

definition truthy :: "string option \<Rightarrow> bool" where
  "truthy v = (case v of None \<Rightarrow> False | Some s \<Rightarrow> s \<noteq> [])"

definition buff_size_of :: "int \<Rightarrow> int" where
  "buff_size_of blk = min (max MIN_BUFF_SIZE blk) MAX_BUFF_SIZE"

lemma buff_size_of_pos: "0 < buff_size_of blk"
  by (simp add: buff_size_of_def MIN_BUFF_SIZE_def MAX_BUFF_SIZE_def)

text \<open>
  One chunk of \<open>readline_reverse\<close>: the buffer read at \<open>f_size - offset\<close>, split at
  newlines, with the \<open>leftover\<close> of the chunk after it joined to its last piece.
\<close>

definition rr_lines :: "string \<Rightarrow> int \<Rightarrow> int \<Rightarrow> int \<Rightarrow> string option \<Rightarrow> string list" where
  "rr_lines content buff_size r_size offset leftover =
     (let f_size = int (length content);
          buffer = take (nat (min r_size buff_size)) (drop (nat (f_size - offset)) content);
          lines = split_on CHR 0x0A buffer
      in if truthy leftover then butlast lines @ [last lines @ the leftover] else lines)"

text \<open>
  \<open>readline_reverse\<close> is a generator: what it gives its caller is the list of the lines
  it yields and, when a line fails to decode, the exception that ends it, raised when
  the caller asks for the line after the last of the list. \<open>yield_loop\<close> is the \<open>for\<close>
  loop over the lines of one chunk.
\<close>

fun yield_loop :: "string list \<Rightarrow> string list \<times> error option" where
  "yield_loop [] = ([], None)"
| "yield_loop (l # ls) =
     (case decode_and_strip (Some l) of
        Inl e \<Rightarrow> ([], Some e)
      | Inr v \<Rightarrow>
          (let r = yield_loop ls
           in ((if truthy v then [the v] else []) @ fst r, snd r)))"

text \<open>
  The \<open>while\<close> loop of \<open>readline_reverse\<close>: it reads the file from its end in chunks of
  \<open>buff_size\<close> bytes (the block size clamped to the two constants) and returns the
  lines it yields, with the exception that ended it or the last \<open>leftover\<close>.
\<close>

function rr_loop :: "string \<Rightarrow> int \<Rightarrow> int \<Rightarrow> int \<Rightarrow> string option \<Rightarrow> string list \<times> (error + string option)" where
  "rr_loop content blk r_size offset leftover =
     (if r_size > 0 then
        (let buff_size = buff_size_of blk;
             offset' = min (int (length content)) (offset + buff_size);
             lines = rr_lines content buff_size r_size offset' leftover;
             y = yield_loop (rev (tl lines))
         in case snd y of
              Some e \<Rightarrow> (fst y, Inl e)
            | None \<Rightarrow>
                (let r = rr_loop content blk (r_size - buff_size) offset' (Some (hd lines))
                 in (fst y @ fst r, snd r)))
      else ([], Inr leftover))"
  by pat_completeness auto
termination
  by (relation "measure (\<lambda>(content, blk, r_size, offset, leftover). nat r_size)")
     (use buff_size_of_pos in auto)

declare rr_loop.simps [simp del]

definition readline_reverse :: "string \<Rightarrow> int \<Rightarrow> string list \<times> error option" where
  "readline_reverse content blk =
     (let r = rr_loop content blk (int (length content)) 0 None
      in case snd r of
           Inl e \<Rightarrow> (fst r, Some e)
         | Inr leftover \<Rightarrow>
             (case decode_and_strip leftover of
                Inl e \<Rightarrow> (fst r, Some e)
              | Inr v \<Rightarrow> (fst r @ (if truthy v then [the v] else []), None)))"


text \<open>The text of a \<open>leftover\<close>: \<open>None\<close> adds nothing to a line.\<close>

definition lo_str :: "string option \<Rightarrow> string" where
  "lo_str v = (case v of None \<Rightarrow> [] | Some s \<Rightarrow> s)"

section \<open>known\_tweets\_handler.py: the identifier log\<close>

definition write_lines :: "string list \<Rightarrow> string" where
  "write_lines twts = concat (map (\<lambda>t. t @ [CHR 0x0A]) twts)"

definition py_add :: "pyval \<Rightarrow> int \<Rightarrow> error + pyval" where
  "py_add x n = (case x of PInt a \<Rightarrow> Inr (PInt (a + n)) | _ \<Rightarrow> Inl TypeError)"

definition save_temp :: "world \<Rightarrow> string \<Rightarrow> string list \<Rightarrow> (error + unit) \<times> world" where
  "save_temp w uid twts =
     (case get_data w (Usr uid) ''temp_db.file_num'' None (PInt 1) of
        (Inl e, w1) \<Rightarrow> (Inl e, w1)
      | (Inr fnum, w1) \<Rightarrow>
          (case assemble_dir w1 [uid, ''known_tweets'', ''temp''] True of
             (Inl e, w2) \<Rightarrow> (Inl e, w2)
           | (Inr dir, w2) \<Rightarrow>
               (let fname = dir @ py_str fnum @ ''.txt'';
                    w3 = w2\<lparr>files := (files w2)(fname \<mapsto> write_lines twts)\<rparr>
                in case set_data w3 (Usr uid) ''temp_db.file_num'' PNone None
                          (Some (\<lambda>x. if x = PNone then Inr (PInt 2) else py_add x 1)) of
                     (Inl e, w4) \<Rightarrow> (Inl e, w4)
                   | (Inr _, w4) \<Rightarrow> (Inr (), w4))))"

text \<open>
  One call of \<open>_save_explicit\<close> up to its recursive call: the result is \<open>None\<close> when the
  call returns, and the arguments \<open>(twts[count:], fnum_next, twtslen - count)\<close> of the
  recursive call otherwise.
\<close>

definition save_step :: "world \<Rightarrow> string \<Rightarrow> string list \<Rightarrow> int \<Rightarrow> pyval option \<Rightarrow> int option \<Rightarrow> (error + (string list \<times> int \<times> int) option) \<times> world" where
  "save_step w uid twts limit fnum_arg twtslen_arg =
     (case (case fnum_arg of
              None \<Rightarrow> get_data w (Usr uid) ''twt_db.file_num'' None (PInt 1)
            | Some f \<Rightarrow> (Inr f, w)) of
        (Inl e, w1) \<Rightarrow> (Inl e, w1)
      | (Inr fnum, w1) \<Rightarrow>
          (let twtslen = (case twtslen_arg of None \<Rightarrow> int (length twts) | Some n \<Rightarrow> n)
           in if twtslen \<le> 0 then (Inr None, w1)
              else
                (case fnum of
                   PInt fn \<Rightarrow>
                     (case get_data w1 (Usr uid) ''twt_db.line_count'' (Some (fn - 1)) (PInt 0) of
                        (Inl e, w2) \<Rightarrow> (Inl e, w2)
                      | (Inr lc, w2) \<Rightarrow>
                          (case assemble_dir w2 [uid, ''known_tweets''] True of
                             (Inl e, w3) \<Rightarrow> (Inl e, w3)
                           | (Inr dir, w3) \<Rightarrow>
                               (case lc of
                                  PInt lcount \<Rightarrow>
                                    (let fname = dir @ str_int fn @ ''.txt'';
                                         written = (if lcount < limit then take (nat (limit - lcount)) twts else []);
                                         count = int (length written);
                                         w4 = (if lcount < limit
                                               then w3\<lparr>files := (files w3)(fname \<mapsto>
                                                      (case files w3 fname of None \<Rightarrow> [] | Some old \<Rightarrow> old)
                                                      @ write_lines written)\<rparr>
                                               else w3)
                                     in case set_data w4 (Usr uid) ''twt_db.line_count'' PNone (Some (fn - 1))
                                               (Some (\<lambda>x. if x = PNone then Inr (PInt count) else py_add x count)) of
                                          (Inl e, w5) \<Rightarrow> (Inl e, w5)
                                        | (Inr _, w5) \<Rightarrow>
                                            if lcount + twtslen > limit then
                                              (case set_data w5 (Usr uid) ''twt_db.file_num'' (PInt (fn + 1)) None None of
                                                 (Inl e, w6) \<Rightarrow> (Inl e, w6)
                                               | (Inr _, w6) \<Rightarrow>
                                                   (Inr (Some (drop (nat count) twts, fn + 1, twtslen - count)), w6))
                                            else (Inr None, w5))
                                | _ \<Rightarrow> (Inl TypeError, w3))))
                 | _ \<Rightarrow> (Inl TypeError, w1))))"

text \<open>
  \<open>_save_explicit\<close>. The recursion need not end for every argument (a limit below 1
  rotates for ever), so the result is an option: \<open>None\<close> is a call that does not return.
\<close>

partial_function (option) save_explicit :: "world \<Rightarrow> string \<Rightarrow> string list \<Rightarrow> int \<Rightarrow> pyval option \<Rightarrow> int option \<Rightarrow> ((error + unit) \<times> world) option" where
  "save_explicit w uid twts limit fnum_arg twtslen_arg =
     (case save_step w uid twts limit fnum_arg twtslen_arg of
        (Inl e, w1) \<Rightarrow> Some (Inl e, w1)
      | (Inr None, w1) \<Rightarrow> Some (Inr (), w1)
      | (Inr (Some nxt), w1) \<Rightarrow>
          save_explicit w1 uid (fst nxt) limit (Some (PInt (fst (snd nxt)))) (Some (snd (snd nxt))))"

text \<open>
  Reading a text file line by line: the bytes are decoded, universal newlines turn
  \<open>\r\n\<close> and \<open>\r\<close> into \<open>\n\<close>, and each line is stripped and kept when not empty.
  The list is yielded after the whole file has been read.
\<close>

fun universal_newlines :: "string \<Rightarrow> string" where
  "universal_newlines [] = []"
| "universal_newlines [c] = (if c = CHR 0x0D then [CHR 0x0A] else [c])"
| "universal_newlines (c # d # cs) =
     (if c = CHR 0x0D then
        (if d = CHR 0x0A then CHR 0x0A # universal_newlines cs
         else CHR 0x0A # universal_newlines (d # cs))
      else c # universal_newlines (d # cs))"

definition read_stripped_lines :: "string \<Rightarrow> error + string list" where
  "read_stripped_lines content =
     (case utf8_decode content of
        Inl e \<Rightarrow> Inl e
      | Inr s \<Rightarrow> Inr (filter (\<lambda>l. l \<noteq> []) (map strip (split_on CHR 0x0A (universal_newlines s)))))"

text \<open>
  The \<open>while\<close> loop of the generator \<open>_revolve_temp_files\<close>, run by the \<open>for\<close> loop of
  \<open>_combine_saves_with_temp\<close>: each batch is saved before the next file is read.
\<close>

function combine_loop :: "world \<Rightarrow> string \<Rightarrow> int \<Rightarrow> string \<Rightarrow> int \<Rightarrow> ((error + unit) \<times> world) option" where
  "combine_loop w uid limit tmp_dir fnum =
     (if fnum \<ge> 1 then
        (case files w (tmp_dir @ str_int fnum @ ''.txt'') of
           None \<Rightarrow> combine_loop w uid limit tmp_dir (fnum - 1)
         | Some content \<Rightarrow>
             (case read_stripped_lines content of
                Inl e \<Rightarrow> Some (Inl e, w)
              | Inr res \<Rightarrow>
                  (case save_explicit w uid res limit None None of
                     None \<Rightarrow> None
                   | Some r \<Rightarrow>
                       (case fst r of
                          Inl e \<Rightarrow> Some (Inl e, snd r)
                        | Inr _ \<Rightarrow> combine_loop (snd r) uid limit tmp_dir (fnum - 1)))))
      else Some (Inr (), w))"
  by pat_completeness auto
termination
  by (relation "measure (\<lambda>(w, uid, limit, tmp_dir, fnum). nat fnum)") auto

declare combine_loop.simps [simp del]

definition combine_saves_with_temp :: "world \<Rightarrow> string \<Rightarrow> int \<Rightarrow> ((error + unit) \<times> world) option" where
  "combine_saves_with_temp w uid limit =
     (case assemble_dir w [uid, ''known_tweets'', ''temp''] True of
        (Inl e, w1) \<Rightarrow> Some (Inl e, w1)
      | (Inr tmp_dir, w1) \<Rightarrow>
          if tmp_dir \<notin> dirs w1 then Some (Inr (), w1)
          else (case get_data w1 (Usr uid) ''temp_db.file_num'' None (PInt 0) of
                  (Inl e, w2) \<Rightarrow> Some (Inl e, w2)
                | (Inr (PInt fnum), w2) \<Rightarrow> combine_loop w2 uid limit tmp_dir fnum
                | (Inr _, w2) \<Rightarrow> Some (Inl TypeError, w2)))"

definition rmtree :: "world \<Rightarrow> string \<Rightarrow> world" where
  "rmtree w dir =
     w\<lparr>dirs := {d \<in> dirs w. \<not> prefix dir d},
       files := (\<lambda>p. if prefix dir p then None else files w p)\<rparr>"

definition save_to_file :: "world \<Rightarrow> string \<Rightarrow> string list \<Rightarrow> int \<Rightarrow> ((error + unit) \<times> world) option" where
  "save_to_file w uid twts limit0 =
     (let limit = min (max limit0 1000) 10000
      in case save_explicit w uid twts limit None None of
           None \<Rightarrow> None
         | Some (Inl e, w1) \<Rightarrow> Some (Inl e, w1)
         | Some (Inr _, w1) \<Rightarrow>
             (case combine_saves_with_temp w1 uid limit of
                None \<Rightarrow> None
              | Some (Inl e, w2) \<Rightarrow> Some (Inl e, w2)
              | Some (Inr _, w2) \<Rightarrow>
                  (case assemble_dir w2 [uid, ''known_tweets'', ''temp''] True of
                     (Inl e, w3) \<Rightarrow> Some (Inl e, w3)
                   | (Inr tmp_dirname, w3) \<Rightarrow>
                       if tmp_dirname \<in> dirs w3 then
                         (case del_data (rmtree w3 tmp_dirname) (Usr uid) (Some ''temp_db'') of
                            (Inl e, w4) \<Rightarrow> Some (Inl e, w4)
                          | (Inr _, w4) \<Rightarrow> Some (Inr (), w4))
                       else Some (Inr (), w3))))"

text \<open>
  The \<open>for\<close> loop of \<open>load_from_file\<close> over the generator: the lines it yields and the
  exception that ends it, if any, which the loop meets when it asks for a line after
  the last one; a \<open>break\<close> leaves the rest of the generator unread.
\<close>

fun load_loop :: "int \<Rightarrow> string list \<Rightarrow> error option \<Rightarrow> string list \<Rightarrow> int \<Rightarrow> error + string list \<times> int" where
  "load_loop limit [] stop twts count = (case stop of Some e \<Rightarrow> Inl e | None \<Rightarrow> Inr (twts, count))"
| "load_loop limit (l # ls) stop twts count =
     (if count \<ge> limit \<and> limit > 0 then Inr (twts, count)
      else if l \<in> set twts then load_loop limit ls stop twts count
      else load_loop limit ls stop (twts @ [l]) (count + 1))"

definition extend_with :: "string list \<Rightarrow> (error + string list) \<times> world \<Rightarrow> (error + string list) \<times> world" where
  "extend_with twts r =
     (case fst r of Inl e \<Rightarrow> (Inl e, snd r) | Inr older \<Rightarrow> (Inr (twts @ older), snd r))"

text \<open>
  \<open>load_from_file\<close> called with a segment number, as its recursive calls are: the limit
  is corrected at the start of every call.
\<close>

function load_segments :: "world \<Rightarrow> string \<Rightarrow> int \<Rightarrow> int \<Rightarrow> (error + string list) \<times> world" where
  "load_segments w uid limit0 fnum =
     (let limit = (if limit0 < 1 \<or> limit0 > 10000 then 10000 else limit0)
      in if fnum < 1 then (Inr [], w)
         else
           (let a = assemble_dir w [uid, ''known_tweets''] True; w1 = snd a
            in case fst a of
                 Inl e \<Rightarrow> (Inl e, w1)
               | Inr dir \<Rightarrow>
                   (case files w1 (dir @ str_int fnum @ ''.txt'') of
                      None \<Rightarrow> (if fnum > 1 then (Inl RuntimeError, w1) else (Inr [], w1))
                    | Some content \<Rightarrow>
                        (let reverse_gen = readline_reverse content (st_blksize w1)
                         in case load_loop limit (fst reverse_gen) (snd reverse_gen) [] 0 of
                              Inl e \<Rightarrow> (Inl e, w1)
                            | Inr (twts, count) \<Rightarrow>
                                if limit < 1 then extend_with twts (load_segments w1 uid limit (fnum - 1))
                                else if limit > count then
                                  extend_with twts (load_segments w1 uid (limit - count) (fnum - 1))
                                else (Inr twts, w1)))))"
  by pat_completeness auto
termination
  by (relation "measure (\<lambda>(w, uid, limit0, fnum). nat fnum)") auto

declare load_segments.simps [simp del]

definition load_from_file :: "world \<Rightarrow> string \<Rightarrow> int \<Rightarrow> int option \<Rightarrow> (error + string list) \<times> world" where
  "load_from_file w uid limit fnum_arg =
     (case fnum_arg of
        None \<Rightarrow>
          (case get_data w (Usr uid) ''twt_db.file_num'' None PNone of
             (Inl e, w1) \<Rightarrow> (Inl e, w1)
           | (Inr (PInt fnum), w1) \<Rightarrow> load_segments w1 uid limit fnum
           | (Inr _, w1) \<Rightarrow> (Inl TypeError, w1))
      | Some fnum \<Rightarrow> load_segments w uid limit fnum)"


text \<open>
  Names for what the functions above compute in place: the path of segment \<open>k\<close> and of
  temp file \<open>k\<close> under the user directory \<open>u\<close> (the verified name of the user ID, with
  its slash), the directories \<open>assemble_dir\<close> creates for the log, the limit
  \<open>load_from_file\<close> works with, and the IDs that are written and read back unchanged:
  not empty, of characters below 128 and free of whitespace.
\<close>

text \<open>Paths of the segment files and of the temp files of a user directory \<open>u\<close>.\<close>

definition seg_path :: "string \<Rightarrow> int \<Rightarrow> string" where
  "seg_path u k = ''./'' @ u @ ''known_tweets/'' @ str_int k @ ''.txt''"

definition temp_dir :: "string \<Rightarrow> string" where
  "temp_dir u = ''./'' @ u @ ''known_tweets/temp/''"

definition temp_path :: "string \<Rightarrow> int \<Rightarrow> string" where
  "temp_path u k = temp_dir u @ str_int k @ ''.txt''"

definition log_dirs :: "string \<Rightarrow> string set" where
  "log_dirs u = {''./'' @ u, ''./'' @ u @ ''known_tweets/''}"

definition load_limit :: "int \<Rightarrow> int" where
  "load_limit limit = (if limit < 1 \<or> limit > 10000 then 10000 else limit)"

definition plain_char :: "char \<Rightarrow> bool" where
  "plain_char c = ((of_char c :: nat) < 128 \<and> \<not> is_space c)"

definition id_ok :: "string \<Rightarrow> bool" where
  "id_ok t = (t \<noteq> [] \<and> list_all plain_char t)"

text \<open>The distinct IDs of a segment file, each at its first place in the order read.\<close>

definition segment_ids :: "world \<Rightarrow> string \<Rightarrow> string list" where
  "segment_ids w content = rev (remdups (rev (fst (readline_reverse content (st_blksize w)))))"


text \<open>
  What the proofs say about the log of a user: the value of a top-level key of the
  user's record, the segment number and line counts the record holds, the segment files
  and metadata of a log whose segments are given, the log that holds given IDs cut into
  segments of a capacity, a user with nothing loaded and nothing on disk, and a caller
  that appends batches one after the other.
\<close>

definition meta_lookup :: "world \<Rightarrow> string \<Rightarrow> string \<Rightarrow> pyval option" where
  "meta_lookup w uid k = (case loaded_data w (Usr uid) of Some (PDict d) \<Rightarrow> map_of d k | _ \<Rightarrow> None)"

definition log_meta :: "world \<Rightarrow> string \<Rightarrow> int \<Rightarrow> int list \<Rightarrow> bool" where
  "log_meta w uid fnum counts =
     (\<exists>t. meta_lookup w uid ''twt_db'' = Some (PDict t) \<and>
          map_of t ''file_num'' = Some (PInt fnum) \<and>
          map_of t ''line_count'' = Some (PList (map PInt counts)))"

text \<open>What a step on the metadata of user \<open>uid\<close> leaves alone.\<close>

definition meta_step :: "world \<Rightarrow> world \<Rightarrow> string \<Rightarrow> string \<Rightarrow> bool" where
  "meta_step w w' uid a =
     (files w' = files w \<and> dirs w' = dirs w \<and> st_blksize w' = st_blksize w \<and>
      (\<forall>k. k \<noteq> a \<longrightarrow> meta_lookup w' uid k = meta_lookup w uid k))"

function chunks :: "nat \<Rightarrow> 'a list \<Rightarrow> 'a list list" where
  "chunks n xs = (if n = 0 \<or> xs = [] then [] else take n xs # chunks n (drop n xs))"
  by pat_completeness auto
termination
  by (relation "measure (\<lambda>(n, xs). length xs)") auto

declare chunks.simps [simp del]

definition log_state :: "world \<Rightarrow> string \<Rightarrow> string \<Rightarrow> int \<Rightarrow> string list list \<Rightarrow> bool" where
  "log_state w uid u fnum segs =
     (log_meta w uid fnum (map (\<lambda>s. int (length s)) segs) \<and>
      (\<forall>k. files w (seg_path u k)
            = (if 1 \<le> k \<and> k \<le> int (length segs) then Some (write_lines (segs ! nat (k - 1))) else None)))"

definition same_outside_log :: "world \<Rightarrow> world \<Rightarrow> string \<Rightarrow> string \<Rightarrow> bool" where
  "same_outside_log w w' uid u =
     ((\<forall>p. (\<forall>k. p \<noteq> seg_path u k) \<longrightarrow> files w' p = files w p) \<and>
      (\<forall>k. k \<noteq> ''twt_db'' \<longrightarrow> meta_lookup w' uid k = meta_lookup w uid k) \<and>
      dirs w \<subseteq> dirs w' \<and> dirs w' \<subseteq> log_dirs u \<union> dirs w \<and> st_blksize w' = st_blksize w)"

definition segs_of :: "string list list \<Rightarrow> string list \<Rightarrow> string list list" where
  "segs_of fs h = fs @ (if h = [] then [] else [h])"

definition log_dir :: "string \<Rightarrow> string" where
  "log_dir u = ''./'' @ u @ ''known_tweets/''"

definition log_inv :: "world \<Rightarrow> string \<Rightarrow> string \<Rightarrow> nat \<Rightarrow> string list \<Rightarrow> bool" where
  "log_inv w uid u C content =
     log_state w uid u (max 1 (int (length (chunks C content)))) (chunks C content)"

definition fresh_log :: "world \<Rightarrow> string \<Rightarrow> string \<Rightarrow> bool" where
  "fresh_log w uid u = (loaded_data w (Usr uid) = None \<and> (\<forall>k. files w (seg_path u k) = None))"

text \<open>A caller that appends the batches one after the other, stopping at an exception.\<close>

fun append_all :: "world \<Rightarrow> string \<Rightarrow> string list list \<Rightarrow> int \<Rightarrow> ((error + unit) \<times> world) option" where
  "append_all w uid [] limit0 = Some (Inr (), w)"
| "append_all w uid (b # bs) limit0 =
     (case save_to_file w uid b limit0 of
        None \<Rightarrow> None
      | Some (Inl e, w1) \<Rightarrow> Some (Inl e, w1)
      | Some (Inr _, w1) \<Rightarrow> append_all w1 uid bs limit0)"

definition capacity :: "int \<Rightarrow> nat" where
  "capacity limit0 = nat (min (max limit0 1000) 10000)"

section \<open>twitter\_api\_bot.py: the API client\<close>

text \<open>
  The JSON of a response, with the fields the program reads. A field that may be
  absent from the JSON is an option (\<open>incl\<close> is the field \<open>"includes"\<close>). \<open>meta\<close> is \<open>None\<close> when the response has no
  \<open>"meta"\<close>, \<open>Some None\<close> when \<open>"meta"\<close> has no \<open>"next_token"\<close>.
\<close>

record tweet =
  tweet_id :: string
  author_id :: string
  created_at :: string
  media_keys :: "string list option"
  entity_urls :: "string list option"

record media =
  media_key :: string
  media_type :: string
  media_url :: "string option"

record included =
  users :: "(string \<times> string) list option"
  media_list :: "media list option"

record api_response =
  data :: "tweet list option"
  incl :: "included option"
  meta :: "string option option"

record response =
  status_code :: int
  json :: api_response

text \<open>
  The outside world the run talks to: the server's answer to the n-th request (by the
  number of requests sent before it and the URL), the status of an image download, and
  the date.
\<close>

record env =
  server :: "nat \<Rightarrow> string \<Rightarrow> response"
  dl_status :: "string \<Rightarrow> int"
  today :: string

definition max_requests :: int where
  "max_requests = 50"

definition user_id_url :: "string list \<Rightarrow> string" where
  "user_id_url usernames =
     (case usernames of
        [] \<Rightarrow> []
      | u # us \<Rightarrow> ''https://api.twitter.com/2/users/by?usernames='' @ u @ concat (map (\<lambda>x. '','' @ x) us))"

definition liked_tweets_url :: "string \<Rightarrow> string option \<Rightarrow> string option \<Rightarrow> string option \<Rightarrow> string option \<Rightarrow> string option \<Rightarrow> string" where
  "liked_tweets_url uid expansions tweet_fields user_fields media_fields page_token =
     (let dec = (\<lambda>name v. case v of None \<Rightarrow> [] | Some x \<Rightarrow> [name @ ''='' @ x]);
          decorations = dec ''expansions'' expansions @ dec ''tweet.fields'' tweet_fields
                        @ dec ''user.fields'' user_fields @ dec ''media.fields'' media_fields
                        @ dec ''pagination_token'' page_token;
          url_end = uid @ ''/liked_tweets'' @ (if decorations = [] then [] else ''?'' @ join ''&'' decorations)
      in ''https://api.twitter.com/2/users/'' @ url_end)"

definition connect_to_endpoint :: "env \<Rightarrow> string \<Rightarrow> world \<Rightarrow> (error + api_response) \<times> world" where
  "connect_to_endpoint ev url w =
     (if requests_count w \<ge> max_requests then (Inl RequestCountError, w)
      else
        (let resp = server ev (length (sent w)) url;
             w1 = w\<lparr>sent := sent w @ [url]\<rparr>
         in if status_code resp \<noteq> 200 then (Inl UnsuccessfulRequestError, w1)
            else (Inr (json resp), w1\<lparr>requests_count := requests_count w1 + 1\<rparr>)))"

definition fetch_user_ids :: "env \<Rightarrow> string list \<Rightarrow> world \<Rightarrow> (error + string list) \<times> world" where
  "fetch_user_ids ev usernames w =
     (let url = user_id_url usernames
      in if url = [] then (Inr [], w)
         else (case connect_to_endpoint ev url w of
                 (Inl e, w1) \<Rightarrow> (Inl e, w1)
               | (Inr r, w1) \<Rightarrow>
                   (case data r of
                      None \<Rightarrow> (Inl KeyError, w1)
                    | Some objs \<Rightarrow> (Inr (map tweet_id objs), w1))))"

definition check_for_external_urls :: "tweet \<Rightarrow> bool" where
  "check_for_external_urls t =
     (case entity_urls t of
        None \<Rightarrow> False
      | Some urls \<Rightarrow> list_ex (\<lambda>u. \<not> prefix ''https://twitter.com/'' u) urls)"

text \<open>
  \<open>reg_external_url\<close> has no \<open>return\<close> with a value: the boolean is the truth value
  of what it returns, \<open>None\<close>.
\<close>

definition reg_external_url :: "world \<Rightarrow> string \<Rightarrow> tweet \<Rightarrow> (string \<rightharpoonup> string) \<Rightarrow> (error + bool) \<times> world" where
  "reg_external_url w uid t usr_dict =
     (if \<not> check_for_external_urls t then (Inr False, w)
      else (case usr_dict (author_id t) of
              None \<Rightarrow> (Inl KeyError, w)
            | Some author \<Rightarrow>
                (let url = ''https://twitter.com/'' @ author @ ''/status/'' @ tweet_id t;
                     old = (case map_of (external_urls w) uid of None \<Rightarrow> [] | Some us \<Rightarrow> us)
                 in (Inr False, w\<lparr>external_urls := AList.update uid (old @ [url]) (external_urls w)\<rparr>))))"

definition dump_external_urls_for_usr :: "env \<Rightarrow> world \<Rightarrow> string \<Rightarrow> (error + unit) \<times> world" where
  "dump_external_urls_for_usr ev w uid =
     (case map_of (external_urls w) uid of
        None \<Rightarrow> (Inr (), w)
      | Some urls \<Rightarrow>
          if urls = [] then (Inr (), w)
          else if entity_dir (Usr uid) \<notin> dirs w then (Inl FileNotFoundError, w)
          else
            (let filepath = ''./'' @ uid @ ''/external_urls.txt'';
                 old = (case files w filepath of None \<Rightarrow> [] | Some c \<Rightarrow> c);
                 txt = today ev @ [CHR 0x0A] @ ''The following URLs have possible external URLs:''
                       @ concat (map (\<lambda>u. [CHR 0x0A] @ u) urls) @ [CHR 0x0A, CHR 0x0A]
             in (Inr (), w\<lparr>files := (files w)(filepath \<mapsto> old @ txt)\<rparr>)))"

section \<open>download\_liked\_tweets.py: the sync engine\<close>

definition gen_id2usr :: "api_response \<Rightarrow> (string \<rightharpoonup> string)" where
  "gen_id2usr r =
     (case incl r of
        None \<Rightarrow> Map.empty
      | Some inc \<Rightarrow> (case users inc of None \<Rightarrow> Map.empty | Some us \<Rightarrow> map_of (rev us)))"

fun media_dict :: "media list \<Rightarrow> (string \<rightharpoonup> string) \<Rightarrow> error + (string \<rightharpoonup> string)" where
  "media_dict [] acc = Inr acc"
| "media_dict (m # ms) acc =
     (if media_type m = ''photo'' then
        (case media_url m of
           None \<Rightarrow> Inl KeyError
         | Some u \<Rightarrow> media_dict ms (acc(media_key m \<mapsto> u)))
      else media_dict ms acc)"

text \<open>
  \<open>gen_media2url\<close>: its guard joins the two tests with \<open>and\<close>, so a response without
  \<open>"includes"\<close> or without \<open>"media"\<close> raises \<open>KeyError\<close>.
\<close>

definition gen_media2url :: "api_response \<Rightarrow> error + (string \<rightharpoonup> string)" where
  "gen_media2url r =
     (case incl r of
        None \<Rightarrow> Inl KeyError
      | Some inc \<Rightarrow> (case media_list inc of None \<Rightarrow> Inl KeyError | Some ms \<Rightarrow> media_dict ms Map.empty))"

text \<open>
  \<open>download_img\<close>: the file written is recorded by the image's URL (the file name built
  by \<open>gen_img_filename\<close> starts with a parenthesis and is no file of the stores).
\<close>

definition download_img :: "env \<Rightarrow> string \<Rightarrow> world \<Rightarrow> bool \<times> world" where
  "download_img ev url w =
     (if dl_status ev url = 200 then (True, w\<lparr>saved_imgs := saved_imgs w @ [url]\<rparr>)
      else (False, w))"

fun media_loop :: "env \<Rightarrow> (string \<rightharpoonup> string) \<Rightarrow> string list \<Rightarrow> int \<Rightarrow> world \<Rightarrow> int \<times> world" where
  "media_loop ev media2url [] img_count w = (img_count, w)"
| "media_loop ev media2url (k # ks) img_count w =
     (case media2url k of
        None \<Rightarrow> media_loop ev media2url ks img_count w
      | Some img_url \<Rightarrow>
          (let r = download_img ev img_url w
           in media_loop ev media2url ks (if fst r then img_count + 1 else img_count) (snd r)))"

definition process_tweet_for_media :: "env \<Rightarrow> tweet \<Rightarrow> (string \<rightharpoonup> string) \<Rightarrow> (string \<rightharpoonup> string) \<Rightarrow> world \<Rightarrow> (error + int) \<times> world" where
  "process_tweet_for_media ev t id2usr media2url w =
     (case id2usr (author_id t) of
        None \<Rightarrow> (Inl KeyError, w)
      | Some author \<Rightarrow>
          (case media_keys t of
             None \<Rightarrow> (Inl KeyError, w)
           | Some ks \<Rightarrow> (let r = media_loop ev media2url ks 0 w in (Inr (fst r), snd r))))"

definition add_one :: "pyval \<Rightarrow> error + pyval" where
  "add_one x = py_add x 1"

text \<open>
  The body of the \<open>for\<close> loop of \<open>process_response_for_imgs\<close> after the check
  against \<open>processed_tweets\<close>: the images of the tweet, its ID recorded as newly
  processed, the external URLs. It returns the number of images downloaded.
\<close>

definition process_item :: "env \<Rightarrow> string \<Rightarrow> (string \<rightharpoonup> string) \<Rightarrow> (string \<rightharpoonup> string) \<Rightarrow> tweet \<Rightarrow> world \<Rightarrow> (error + int) \<times> world" where
  "process_item ev usr_id id2usr media2url t w =
     (case process_tweet_for_media ev t id2usr media2url w of
        (Inl e, w1) \<Rightarrow> (Inl e, w1)
      | (Inr n, w1) \<Rightarrow>
          (let w2 = w1\<lparr>new_processed_tweets := new_processed_tweets w1 @ [tweet_id t]\<rparr>
           in case (if entity_urls t \<noteq> None then reg_external_url w2 usr_id t id2usr
                    else (Inr False, w2)) of
                (Inl e, w3) \<Rightarrow> (Inl e, w3)
              | (Inr ext, w3) \<Rightarrow>
                  (case (if ext
                         then set_data w3 (Usr usr_id) ''liked_tweets.with_external_urls''
                                PNone None (Some add_one)
                         else (Inr False, w3)) of
                     (Inl e, w4) \<Rightarrow> (Inl e, w4)
                   | (Inr _, w4) \<Rightarrow> (Inr n, w4))))"

text \<open>
  The \<open>for\<close> loop of \<open>process_response_for_imgs\<close>. The tuple returned is a list of
  ints: \<open>[halt, img_count, tweet_count]\<close>.
\<close>

fun tweets_loop :: "env \<Rightarrow> string \<Rightarrow> (string \<rightharpoonup> string) \<Rightarrow> (string \<rightharpoonup> string) \<Rightarrow> bool \<Rightarrow> tweet list \<Rightarrow> int \<Rightarrow> int \<Rightarrow> world \<Rightarrow> (error + int list) \<times> world" where
  "tweets_loop ev usr_id id2usr media2url ignore_processed [] img_count tweet_count w =
     (Inr [0, img_count, tweet_count], w)"
| "tweets_loop ev usr_id id2usr media2url ignore_processed (t # ts) img_count tweet_count w =
     (case media_keys t of
        None \<Rightarrow> tweets_loop ev usr_id id2usr media2url ignore_processed ts img_count tweet_count w
      | Some _ \<Rightarrow>
          if \<not> ignore_processed \<and> tweet_id t \<in> set (processed_tweets w)
          then (Inr [2, img_count, tweet_count], w)
          else
            (case process_item ev usr_id id2usr media2url t w of
               (Inl e, w1) \<Rightarrow> (Inl e, w1)
             | (Inr n, w1) \<Rightarrow>
                 tweets_loop ev usr_id id2usr media2url ignore_processed ts
                   (img_count + n) (tweet_count + 1) w1))"

definition process_response_for_imgs :: "env \<Rightarrow> world \<Rightarrow> string \<Rightarrow> api_response \<Rightarrow> bool \<Rightarrow> (error + int list) \<times> world" where
  "process_response_for_imgs ev w usr_id r ignore_processed =
     (case data r of
        None \<Rightarrow> (Inr [0, 0], w)
      | Some tweets \<Rightarrow>
          (case gen_media2url r of
             Inl e \<Rightarrow> (Inl e, w)
           | Inr media2url \<Rightarrow>
               tweets_loop ev usr_id (gen_id2usr r) media2url ignore_processed tweets 0 0 w))"


text \<open>Unpacking the returned tuple into three names.\<close>

definition unpack3 :: "int list \<Rightarrow> error + (int \<times> int \<times> int)" where
  "unpack3 xs = (case xs of [a, b, c] \<Rightarrow> Inr (a, b, c) | _ \<Rightarrow> Inl ValueError)"

text \<open>
  What a step leaves alone: a function \<open>sel\<close> of the state that does not depend on the
  fields a step writes has the same value after the step.
\<close>

lemma set_as_modified_frame:
  assumes "\<And>w x. sel (w\<lparr>data_modified := x\<rparr>) = sel w"
  shows "sel (set_as_modified w i) = sel w"
  using assms by (simp add: set_as_modified_def)

lemma default_if_nonexistent_frame:
  assumes "\<And>w x. sel (w\<lparr>data_modified := x\<rparr>) = sel w" "\<And>w x. sel (w\<lparr>loaded_data := x\<rparr>) = sel w"
  shows "sel (default_if_nonexistent w i) = sel w"
  using assms by (simp add: default_if_nonexistent_def set_as_modified_def)

lemma set_data_frame:
  assumes "\<And>w x. sel (w\<lparr>data_modified := x\<rparr>) = sel w" "\<And>w x. sel (w\<lparr>loaded_data := x\<rparr>) = sel w"
  shows "sel (snd (set_data w i key val index set_func)) = sel w"
  using assms
  by (simp add: set_data_def Let_def default_if_nonexistent_def set_as_modified_def
        split: option.splits sum.splits)

lemma get_data_frame:
  assumes "\<And>w x. sel (w\<lparr>data_modified := x\<rparr>) = sel w" "\<And>w x. sel (w\<lparr>loaded_data := x\<rparr>) = sel w"
  shows "sel (snd (get_data w i key index dflt)) = sel w"
  using assms
  by (simp add: get_data_def Let_def default_if_nonexistent_def set_as_modified_def
        split: option.splits sum.splits)

lemma media_loop_frame:
  assumes "\<And>w x. sel (w\<lparr>saved_imgs := x\<rparr>) = sel w"
  shows "sel (snd (media_loop ev m ks n w)) = sel w"
  using assms
  by (induction ks arbitrary: n w) (auto simp: download_img_def Let_def split: option.splits)

lemma process_tweet_for_media_frame:
  assumes "\<And>w x. sel (w\<lparr>saved_imgs := x\<rparr>) = sel w"
  shows "sel (snd (process_tweet_for_media ev t id2usr m w)) = sel w"
  using media_loop_frame [of sel, OF assms]
  by (simp add: process_tweet_for_media_def Let_def split: option.splits)

lemma reg_external_url_frame:
  assumes "\<And>w x. sel (w\<lparr>external_urls := x\<rparr>) = sel w"
  shows "sel (snd (reg_external_url w uid t d)) = sel w"
  using assms by (simp add: reg_external_url_def Let_def split: option.splits)

lemma process_item_frame:
  assumes "\<And>w x. sel (w\<lparr>saved_imgs := x\<rparr>) = sel w"
    and "\<And>w x. sel (w\<lparr>new_processed_tweets := x\<rparr>) = sel w"
    and "\<And>w x. sel (w\<lparr>external_urls := x\<rparr>) = sel w"
    and "\<And>w x. sel (w\<lparr>data_modified := x\<rparr>) = sel w"
    and "\<And>w x. sel (w\<lparr>loaded_data := x\<rparr>) = sel w"
  shows "sel (snd (process_item ev uid id2usr m t w)) = sel w"
proof -
  have a: "\<And>t w r w'. process_tweet_for_media ev t id2usr m w = (r, w') \<Longrightarrow> sel w' = sel w"
    using process_tweet_for_media_frame [of sel, OF assms(1)] by (metis snd_conv)
  have b: "\<And>t w r w'. reg_external_url w uid t id2usr = (r, w') \<Longrightarrow> sel w' = sel w"
    using reg_external_url_frame [of sel, OF assms(3)] by (metis snd_conv)
  have c: "\<And>w k v ix f r w'. set_data w (Usr uid) k v ix f = (r, w') \<Longrightarrow> sel w' = sel w"
    using set_data_frame [of sel, OF assms(4,5)] by (metis snd_conv)
  show ?thesis
    by (auto simp: process_item_def Let_def assms(2) split: option.splits sum.splits prod.splits if_splits
           dest!: a b c)
qed

lemma tweets_loop_frame:
  assumes "\<And>w x. sel (w\<lparr>saved_imgs := x\<rparr>) = sel w"
    and "\<And>w x. sel (w\<lparr>new_processed_tweets := x\<rparr>) = sel w"
    and "\<And>w x. sel (w\<lparr>external_urls := x\<rparr>) = sel w"
    and "\<And>w x. sel (w\<lparr>data_modified := x\<rparr>) = sel w"
    and "\<And>w x. sel (w\<lparr>loaded_data := x\<rparr>) = sel w"
  shows "sel (snd (tweets_loop ev uid id2usr m ign ts ic tc w)) = sel w"
proof -
  have a: "\<And>t w r w'. process_item ev uid id2usr m t w = (r, w') \<Longrightarrow> sel w' = sel w"
    using process_item_frame [of sel, OF assms] by (metis snd_conv)
  show ?thesis
    by (induction ts arbitrary: ic tc w)
       (auto split: option.splits sum.splits prod.splits if_splits dest!: a)
qed

lemma process_response_for_imgs_frame:
  assumes "\<And>w x. sel (w\<lparr>saved_imgs := x\<rparr>) = sel w"
    and "\<And>w x. sel (w\<lparr>new_processed_tweets := x\<rparr>) = sel w"
    and "\<And>w x. sel (w\<lparr>external_urls := x\<rparr>) = sel w"
    and "\<And>w x. sel (w\<lparr>data_modified := x\<rparr>) = sel w"
    and "\<And>w x. sel (w\<lparr>loaded_data := x\<rparr>) = sel w"
  shows "sel (snd (process_response_for_imgs ev w uid r ign)) = sel w"
  using tweets_loop_frame [of sel, OF assms]
  by (simp add: process_response_for_imgs_def split: option.splits sum.splits)

lemma requests_count_process_response_for_imgs [simp]:
  "requests_count (snd (process_response_for_imgs ev w uid r ign)) = requests_count w"
  by (rule process_response_for_imgs_frame) simp_all

lemma connect_to_endpoint_ok_count:
  "fst (connect_to_endpoint ev url w) = Inr r \<Longrightarrow>
     requests_count w < max_requests \<and>
     requests_count (snd (connect_to_endpoint ev url w)) = requests_count w + 1"
  by (auto simp: connect_to_endpoint_def Let_def split: if_splits)

text \<open>
  The \<open>while\<close> loop of \<open>process_usr_for_liked\<close> together with the generator
  \<open>fetch_liked_tweets\<close> it draws pages from: one request per turn. The result is the
  exception or the last \<open>halt\<close>, with the counts at that point. The folder only names
  the image files and is left out.
\<close>

function fetch_loop :: "env \<Rightarrow> string \<Rightarrow> bool \<Rightarrow> string option \<Rightarrow> int \<Rightarrow> int \<Rightarrow> int \<Rightarrow> world \<Rightarrow> (error + int) \<times> int \<times> int \<times> world" where
  "fetch_loop ev usr_id ignore_processed page_token halt img_count tweet_count w =
     (let url = liked_tweets_url usr_id (Some ''author_id,attachments.media_keys'')
                  (Some ''created_at,entities'') None (Some ''url'') page_token;
          c = connect_to_endpoint ev url w; w1 = snd c
      in case fst c of
           Inl e \<Rightarrow> (Inl e, img_count, tweet_count, w1)
         | Inr api_response \<Rightarrow>
             if data api_response = None then (Inr halt, img_count, tweet_count, w1)
             else
               (let p = process_response_for_imgs ev w1 usr_id api_response ignore_processed;
                    w2 = snd p
                in case fst p of
                     Inl e \<Rightarrow> (Inl e, img_count, tweet_count, w2)
                   | Inr tup \<Rightarrow>
                       (case unpack3 tup of
                          Inl e \<Rightarrow> (Inl e, img_count, tweet_count, w2)
                        | Inr hit \<Rightarrow>
                            if is_verbose w2 \<and> meta api_response = None
                            then (Inl KeyError, img_count, tweet_count, w2)
                            else if fst hit > 0
                            then (Inr (fst hit), img_count + fst (snd hit), tweet_count + snd (snd hit), w2)
                            else
                              (case meta api_response of
                                 None \<Rightarrow> (Inl KeyError, img_count + fst (snd hit), tweet_count + snd (snd hit), w2)
                               | Some None \<Rightarrow>
                                   (Inr (fst hit), img_count + fst (snd hit), tweet_count + snd (snd hit), w2)
                               | Some (Some tok) \<Rightarrow>
                                   fetch_loop ev usr_id ignore_processed (Some tok) (fst hit)
                                     (img_count + fst (snd hit)) (tweet_count + snd (snd hit)) w2))))"
  by pat_completeness auto
termination
proof (relation "measure (\<lambda>(ev, usr_id, ign, tok, halt, ic, tc, w). nat (max_requests - requests_count w))", goal_cases)
  case 1
  show ?case by simp
next
  case (2 ev usr_id ign tok halt ic tc w url c w1 r p w2)
  then show ?case
    using connect_to_endpoint_ok_count [of ev url w r] by simp
qed

declare fetch_loop.simps [simp del]

definition process_usr_for_liked :: "env \<Rightarrow> world \<Rightarrow> string \<Rightarrow> string option \<Rightarrow> bool \<Rightarrow> (error + int \<times> int \<times> int) \<times> world" where
  "process_usr_for_liked ev w usr_id page_token ignore_processed =
     (case fetch_loop ev usr_id ignore_processed page_token 0 0 0 w of
        (Inl UnsuccessfulRequestError, img_count, tweet_count, w1) \<Rightarrow> (Inr (1, img_count, tweet_count), w1)
      | (Inl e, img_count, tweet_count, w1) \<Rightarrow> (Inl e, w1)
      | (Inr halt, img_count, tweet_count, w1) \<Rightarrow> (Inr (halt, img_count, tweet_count), w1))"

text \<open>
  \<open>main\<close>. The three \<open>pd.set_data\<close> calls after the loop are given \<open>id\<close>, which in
  \<open>main\<close> is the Python builtin (the user's ID is \<open>usr_id\<close>).
\<close>

definition main :: "env \<Rightarrow> world \<Rightarrow> string \<Rightarrow> string option \<Rightarrow> string option \<Rightarrow> bool \<Rightarrow> bool \<Rightarrow> (error + unit) \<times> world" where
  "main ev w username folder page_token ignore_processed verbose =
     (case fetch_user_ids ev [username] (w\<lparr>is_verbose := verbose\<rparr>) of
        (Inl e, w1) \<Rightarrow> (Inl e, w1)
      | (Inr [], w1) \<Rightarrow> (Inl IndexError, w1)
      | (Inr (usr_id # _), w1) \<Rightarrow>
          (case load_from_file w1 usr_id 3000 None of
             (Inl e, w2) \<Rightarrow> (Inl e, w2)
           | (Inr known, w2) \<Rightarrow>
               (case assemble_dir (w2\<lparr>processed_tweets := known\<rparr>)
                       [usr_id, (case folder of None \<Rightarrow> ''downloaded images'' | Some f \<Rightarrow> f)] True of
                  (Inl e, w4) \<Rightarrow> (Inl e, w4)
                | (Inr final_folder, w4) \<Rightarrow>
                    (case process_usr_for_liked ev w4 usr_id page_token ignore_processed of
                       (Inl e, w5) \<Rightarrow> (Inl e, w5)
                     | (Inr (halt, img_count, tweet_count), w5) \<Rightarrow>
                         (case set_data w5 BuiltinId ''liked_tweets.count'' PNone None
                                 (Some (\<lambda>x. py_add x tweet_count)) of
                            (Inl e, w6) \<Rightarrow> (Inl e, w6)
                          | (Inr _, w6) \<Rightarrow>
                              (case set_data w6 BuiltinId ''imgs_downloaded'' PNone None
                                      (Some (\<lambda>x. py_add x img_count)) of
                                 (Inl e, w7) \<Rightarrow> (Inl e, w7)
                               | (Inr _, w7) \<Rightarrow>
                                   (case set_data w7 BuiltinId ''requests_made'' PNone None
                                           (Some (\<lambda>x. py_add x (requests_count w7))) of
                                      (Inl e, w8) \<Rightarrow> (Inl e, w8)
                                    | (Inr _, w8) \<Rightarrow> dump_external_urls_for_usr ev w8 usr_id)))))))"


text \<open>
  The URL \<open>process_usr_for_liked\<close> asks \<open>fetch_liked_tweets\<close> for, an item that carries
  \<open>attachments.media_keys\<close>, and a page result with its \<open>halt\<close> set to 2.
\<close>

definition page_url :: "string \<Rightarrow> string option \<Rightarrow> string" where
  "page_url uid tok = liked_tweets_url uid (Some ''author_id,attachments.media_keys'')
                  (Some ''created_at,entities'') None (Some ''url'') tok"

definition has_media :: "tweet \<Rightarrow> bool" where
  "has_media t = (media_keys t \<noteq> None)"

definition set_halt2 :: "(error + int list) \<times> world \<Rightarrow> (error + int list) \<times> world" where
  "set_halt2 r = (case fst r of Inr (h # rest) \<Rightarrow> (Inr (2 # rest), snd r) | _ \<Rightarrow> r)"

section \<open>Concrete runs\<close>

text \<open>
  The state at program start (the initial values of the module globals, on an empty
  disk), a page of liked tweets that each carry one photo, and a server that answers
  every request with such a page and a next token.
\<close>

definition init_world :: world where
  "init_world = \<lparr>loaded_data = Map.empty, data_modified = [], dirs = {}, files = Map.empty,
     st_blksize = 4096, requests_count = 0, sent = [], external_urls = [],
     processed_tweets = [], new_processed_tweets = [], saved_imgs = [], is_verbose = False\<rparr>"

definition photo_tweet :: "string \<Rightarrow> tweet" where
  "photo_tweet i = \<lparr>tweet_id = i, author_id = ''77'', created_at = ''2022-05-01T10:00:00.000Z'',
     media_keys = Some [''3_'' @ i], entity_urls = None\<rparr>"

definition photo_page :: "string list \<Rightarrow> string option option \<Rightarrow> api_response" where
  "photo_page ids m = \<lparr>data = Some (map photo_tweet ids),
     incl = Some \<lparr>users = Some [(''77'', ''artist'')],
                  media_list = Some (map (\<lambda>i. \<lparr>media_key = ''3_'' @ i, media_type = ''photo'',
                                      media_url = Some (''https://pbs.twimg.com/media/'' @ i @ ''.jpg'')\<rparr>) ids)\<rparr>,
     meta = m\<rparr>"

definition endless_env :: env where
  "endless_env = \<lparr>server = (\<lambda>n url. \<lparr>status_code = 200, json = photo_page [''7''] (Some (Some ''tok''))\<rparr>),
     dl_status = (\<lambda>url. 200), today = ''2022-05-02''\<rparr>"

definition down_env :: env where
  "down_env = \<lparr>server = (\<lambda>n url. \<lparr>status_code = 503, json = photo_page [] None\<rparr>),
     dl_status = (\<lambda>url. 503), today = ''2022-05-02''\<rparr>"

text \<open>
  A state whose known IDs are given, a tweet without attachments, a page that holds
  one such tweet, and a server whose only page holds the tweets 7, 6, 5, 4, 3.
\<close>

definition known_world :: "string list \<Rightarrow> world" where
  "known_world known = init_world\<lparr>processed_tweets := known\<rparr>"

definition plain_tweet :: "string \<Rightarrow> tweet" where
  "plain_tweet i = \<lparr>tweet_id = i, author_id = ''77'', created_at = ''2022-05-01T10:00:00.000Z'',
     media_keys = None, entity_urls = None\<rparr>"

definition plain_page :: api_response where
  "plain_page = \<lparr>data = Some [plain_tweet ''5''],
     incl = Some \<lparr>users = Some [(''77'', ''artist'')], media_list = Some []\<rparr>,
     meta = Some None\<rparr>"

definition feed_env :: env where
  "feed_env = \<lparr>server = (\<lambda>n url. \<lparr>status_code = 200,
                   json = photo_page [''7'', ''6'', ''5'', ''4'', ''3''] (Some None)\<rparr>),
     dl_status = (\<lambda>url. 200), today = ''2022-05-02''\<rparr>"

text \<open>
  A state with the directories of two users, the same after a value of user 1111 is
  set, after the flush that follows, and after user 2222 is changed in turn while the
  snapshot file of user 1111 has been removed from the disk.
\<close>

definition two_dirs_world :: world where
  "two_dirs_world = init_world\<lparr>dirs := {''./1111/'', ''./2222/''}\<rparr>"

definition world_a :: world where
  "world_a = snd (set_data two_dirs_world (Usr ''1111'') ''requests_made'' (PInt 3) None None)"

definition world_a_flushed :: world where
  "world_a_flushed = snd (pd_save_to_file world_a)"

definition world_ab :: world where
  "world_ab =
     (let w = snd (set_data world_a_flushed (Usr ''2222'') ''requests_made'' (PInt 1) None None)
      in w\<lparr>files := (files w)(get_file (Usr ''1111'') := None)\<rparr>)"

text \<open>
  A disk whose only files are segments \<open>k\<close> and \<open>k + 1\<close> of user 2244994945, with the
  IDs 5 and 6 in the lower and 7 in the higher one.
\<close>

definition segments_world :: "int \<Rightarrow> world" where
  "segments_world k = init_world\<lparr>files :=
     [seg_path ''2244994945/'' k \<mapsto> write_lines [''5'', ''6''],
      seg_path ''2244994945/'' (k + 1) \<mapsto> write_lines [''7'']]\<rparr>"


text \<open>
  A state with the directory of user 2222 only, in which a value of user 1111 and then
  one of user 2222 are set.
\<close>

definition one_dir_world :: world where
  "one_dir_world = init_world\<lparr>dirs := {''./2222/''}\<rparr>"

definition world_c :: world where
  "world_c =
     snd (set_data (snd (set_data one_dir_world (Usr ''1111'') ''requests_made'' (PInt 3) None None))
            (Usr ''2222'') ''requests_made'' (PInt 1) None None)"


text \<open>
  A whole run: the server resolves the user name to the ID 2244994945 and has one page
  of two tweets with photos, 7 and 6, with no next token. \<open>run_result\<close> is \<open>main\<close> for
  that user from the state at program start; \<open>counted_record\<close> is the default record
  with the three run counters set.
\<close>

definition run_env :: env where
  "run_env = \<lparr>server = (\<lambda>n url.
                 if prefix ''https://api.twitter.com/2/users/by'' url
                 then \<lparr>status_code = 200,
                       json = \<lparr>data = Some [plain_tweet ''2244994945''], incl = None, meta = None\<rparr>\<rparr>
                 else \<lparr>status_code = 200, json = photo_page [''7'', ''6''] (Some None)\<rparr>),
     dl_status = (\<lambda>url. 200), today = ''2022-05-02''\<rparr>"

definition run_result :: "(error + unit) \<times> world" where
  "run_result = main run_env init_world ''someone'' None None False False"

definition counted_record :: "int \<Rightarrow> int \<Rightarrow> int \<Rightarrow> pyval" where
  "counted_record tweets imgs reqs = PDict
     [(''twt_db'', PDict [(''file_num'', PInt 1), (''line_count'', PList [])]),
      (''liked_tweets'', PDict [(''count'', PInt tweets), (''with_external_urls'', PInt 0)]),
      (''imgs_downloaded'', PInt imgs),
      (''requests_made'', PInt reqs)]"

text \<open>
  IDs that are the decimal numerals of a range, and disks for the load: one where the
  ID 7 is in both segments, one after the 10001 IDs 0 to 10000 have been appended for a
  new user, and one whose segment 1 has a repeated line.
\<close>

definition numbered_from :: "nat \<Rightarrow> nat \<Rightarrow> string list" where
  "numbered_from a b = map str_nat [a..<b]"

definition dup_world :: world where
  "dup_world = init_world\<lparr>files :=
     [seg_path ''2244994945/'' 1 \<mapsto> write_lines [''7''],
      seg_path ''2244994945/'' 2 \<mapsto> write_lines [''7'']]\<rparr>"

definition big_world :: world where
  "big_world = (case append_all init_world ''2244994945'' [numbered_from 0 10001] 5000 of
                  Some r \<Rightarrow> snd r | None \<Rightarrow> init_world)"

definition repeat_world :: world where
  "repeat_world = init_world\<lparr>files :=
     [seg_path ''2244994945/'' 1 \<mapsto> write_lines [''5'', ''6'', ''5''],
      seg_path ''2244994945/'' 2 \<mapsto> write_lines [''7'']]\<rparr>"

section \<open>The request budget\<close>

lemma connect_at_limit:
  "requests_count w \<ge> max_requests \<Longrightarrow> connect_to_endpoint ev url w = (Inl RequestCountError, w)"
  by (simp add: connect_to_endpoint_def)

lemma connect_bound:
  "requests_count w \<le> max_requests \<Longrightarrow> requests_count (snd (connect_to_endpoint ev url w)) \<le> max_requests"
  by (simp add: connect_to_endpoint_def Let_def)

lemma connect_mono:
  "requests_count w \<le> requests_count (snd (connect_to_endpoint ev url w))"
  by (simp add: connect_to_endpoint_def Let_def)

lemma fetch_loop_bound:
  "requests_count w \<le> max_requests \<Longrightarrow>
   requests_count (snd (snd (snd (fetch_loop ev uid ign tok h ic tc w)))) \<le> max_requests"
proof (induction ev uid ign tok h ic tc w rule: fetch_loop.induct)
  case (1 ev usr_id ign tok halt ic tc w)
  define url where "url = liked_tweets_url usr_id (Some ''author_id,attachments.media_keys'')
                  (Some ''created_at,entities'') None (Some ''url'') tok"
  define c where "c = connect_to_endpoint ev url w"
  have b1: "requests_count (snd c) \<le> max_requests"
    unfolding c_def using connect_bound [OF "1.prems"] .
  show ?case
  proof (cases "fst c")
    case (Inl e)
    then show ?thesis using b1
      by (subst fetch_loop.simps) (simp add: Let_def url_def [symmetric] c_def [symmetric])
  next
    case (Inr r)
    note r = Inr
    show ?thesis
    proof (cases "data r = None")
      case True
      then show ?thesis using b1 r
        by (subst fetch_loop.simps) (simp add: Let_def url_def [symmetric] c_def [symmetric])
    next
      case False
      define p where "p = process_response_for_imgs ev (snd c) usr_id r ign"
      have b2: "requests_count (snd p) \<le> max_requests"
        unfolding p_def using b1 by simp
      show ?thesis
      proof (cases "fst p")
        case (Inl e)
        then show ?thesis using b2 r False
          by (subst fetch_loop.simps)
             (auto simp: Let_def url_def [symmetric] c_def [symmetric] p_def [symmetric])
      next
        case (Inr tup)
        note tup = Inr
        show ?thesis
        proof (cases "unpack3 tup")
          case (Inl e)
          then show ?thesis using b2 r False tup
            by (subst fetch_loop.simps)
               (auto simp: Let_def url_def [symmetric] c_def [symmetric] p_def [symmetric])
        next
          case (Inr hit)
          have ih: "\<And>t. \<not> (is_verbose (snd p) \<and> meta r = None) \<Longrightarrow> \<not> fst hit > 0 \<Longrightarrow> meta r = Some (Some t) \<Longrightarrow>
             requests_count (snd (snd (snd (fetch_loop ev usr_id ign (Some t) (fst hit)
                 (ic + fst (snd hit)) (tc + snd (snd hit)) (snd p))))) \<le> max_requests"
            using "1.IH" [OF url_def c_def refl r False p_def refl tup Inr _ _ _ _ b2]
            by blast
          show ?thesis using b2 r False tup Inr ih
            by (subst fetch_loop.simps)
               (auto simp: Let_def url_def [symmetric] c_def [symmetric] p_def [symmetric]
                     split: option.splits)
        qed
      qed
    qed
  qed
qed


lemma fetch_user_ids_bound:
  "requests_count w \<le> max_requests \<Longrightarrow> requests_count (snd (fetch_user_ids ev us w)) \<le> max_requests"
  using connect_bound [of w ev "user_id_url us"]
  by (auto simp: fetch_user_ids_def Let_def split: prod.splits sum.splits option.splits)

lemma process_usr_for_liked_bound:
  "requests_count w \<le> max_requests \<Longrightarrow>
   requests_count (snd (process_usr_for_liked ev w uid tok ign)) \<le> max_requests"
  using fetch_loop_bound [of w ev uid ign tok 0 0 0]
  by (auto simp: process_usr_for_liked_def split: prod.splits sum.splits error.splits)

text \<open>
  Claim C10. \<open>max_requests\<close> is 50. Once \<open>requests_count\<close> has reached it,
  \<open>connect_to_endpoint\<close> raises \<open>RequestCountError\<close> and leaves the state as it is: no
  request is sent. Below the maximum it sends one request, and adds one to
  \<open>requests_count\<close> exactly when the status is 200; any other status raises
  \<open>UnsuccessfulRequestError\<close> with the count unchanged. A count that is at most the
  maximum stays so through \<open>connect_to_endpoint\<close>, \<open>fetch_user_ids\<close> and the whole
  loop of \<open>process_usr_for_liked\<close>; as the count never decreases, it is at most the
  maximum at every point of the run.
\<close>

theorem request_budget_invariant:
  "max_requests = 50 \<and>
   requests_count w \<le> requests_count (snd (connect_to_endpoint ev url w)) \<and>
   (requests_count w \<ge> max_requests \<longrightarrow>
      connect_to_endpoint ev url w = (Inl RequestCountError, w)) \<and>
   (requests_count w < max_requests \<longrightarrow>
      sent (snd (connect_to_endpoint ev url w)) = sent w @ [url] \<and>
      (if status_code (server ev (length (sent w)) url) = 200
       then fst (connect_to_endpoint ev url w) = Inr (json (server ev (length (sent w)) url)) \<and>
            requests_count (snd (connect_to_endpoint ev url w)) = requests_count w + 1
       else fst (connect_to_endpoint ev url w) = Inl UnsuccessfulRequestError \<and>
            requests_count (snd (connect_to_endpoint ev url w)) = requests_count w)) \<and>
   (requests_count w \<le> max_requests \<longrightarrow>
      requests_count (snd (connect_to_endpoint ev url w)) \<le> max_requests \<and>
      requests_count (snd (fetch_user_ids ev us w)) \<le> max_requests \<and>
      requests_count (snd (process_usr_for_liked ev w uid tok ign)) \<le> max_requests)"
proof -
  have a: "max_requests = 50" by (simp add: max_requests_def)
  have b: "requests_count w < max_requests \<longrightarrow>
      sent (snd (connect_to_endpoint ev url w)) = sent w @ [url] \<and>
      (if status_code (server ev (length (sent w)) url) = 200
       then fst (connect_to_endpoint ev url w) = Inr (json (server ev (length (sent w)) url)) \<and>
            requests_count (snd (connect_to_endpoint ev url w)) = requests_count w + 1
       else fst (connect_to_endpoint ev url w) = Inl UnsuccessfulRequestError \<and>
            requests_count (snd (connect_to_endpoint ev url w)) = requests_count w)"
    by (simp add: connect_to_endpoint_def Let_def)
  show ?thesis
    using a b connect_mono connect_at_limit connect_bound fetch_user_ids_bound
      process_usr_for_liked_bound
    by blast
qed

theorem request_budget_invariant_witness:
  "connect_to_endpoint endless_env ''u'' (init_world\<lparr>requests_count := 50\<rparr>)
     = (Inl RequestCountError, init_world\<lparr>requests_count := 50\<rparr>) \<and>
   requests_count (snd (connect_to_endpoint endless_env ''u'' init_world)) = 1 \<and>
   sent (snd (connect_to_endpoint endless_env ''u'' init_world)) = [''u''] \<and>
   fst (connect_to_endpoint down_env ''u'' init_world) = Inl UnsuccessfulRequestError \<and>
   requests_count (snd (connect_to_endpoint down_env ''u'' init_world)) = 0 \<and>
   requests_count (snd (process_usr_for_liked endless_env init_world ''2244994945'' None False)) \<le> 50"
proof -
  have rc0: "requests_count init_world = 0" and sent0: "sent init_world = []"
    by (simp_all add: init_world_def)
  have m: "max_requests = 50" by (simp add: max_requests_def)
  have full: "requests_count (init_world\<lparr>requests_count := 50\<rparr>) \<ge> max_requests"
    by (simp add: m)
  have low: "requests_count init_world < max_requests" "requests_count init_world \<le> max_requests"
    by (simp_all add: rc0 m)
  have ok: "status_code (server endless_env (length (sent init_world)) ''u'') = 200"
    by (simp add: endless_env_def)
  have ko: "status_code (server down_env (length (sent init_world)) ''u'') \<noteq> 200"
    by (simp add: down_env_def)
  have c1: "connect_to_endpoint endless_env ''u'' (init_world\<lparr>requests_count := 50\<rparr>)
     = (Inl RequestCountError, init_world\<lparr>requests_count := 50\<rparr>)"
    using request_budget_invariant [of "init_world\<lparr>requests_count := 50\<rparr>" endless_env "''u''"] full
    by blast
  have c2: "requests_count (snd (connect_to_endpoint endless_env ''u'' init_world)) = requests_count init_world + 1"
       "sent (snd (connect_to_endpoint endless_env ''u'' init_world)) = sent init_world @ [''u'']"
       "requests_count (snd (process_usr_for_liked endless_env init_world ''2244994945'' None False)) \<le> max_requests"
    using request_budget_invariant [of init_world endless_env "''u''" "[]" "''2244994945''" None False] low ok
    by presburger+
  have c3: "fst (connect_to_endpoint down_env ''u'' init_world) = Inl UnsuccessfulRequestError"
     "requests_count (snd (connect_to_endpoint down_env ''u'' init_world)) = requests_count init_world"
    using request_budget_invariant [of init_world down_env "''u''"] low ko
    by presburger+
  show ?thesis
    using c1 c2 c3 by (simp only: rc0 sent0 m append_Nil simp_thms)
qed

section \<open>The exhausted budget at the engine's boundary\<close>

lemma endless_page:
  "processed_tweets w = [] \<Longrightarrow>
   process_response_for_imgs endless_env w uid (photo_page [''7''] (Some (Some ''tok''))) False
     = (Inr [0, 1, 1], w\<lparr>saved_imgs := saved_imgs w @ [''https://pbs.twimg.com/media/7.jpg''],
                         new_processed_tweets := new_processed_tweets w @ [''7'']\<rparr>)"
  by (simp add: process_response_for_imgs_def photo_page_def photo_tweet_def gen_media2url_def
        gen_id2usr_def process_item_def process_tweet_for_media_def download_img_def endless_env_def Let_def)

lemma endless_fetch:
  "processed_tweets w = [] \<Longrightarrow>
   fst (fetch_loop endless_env uid False tok h ic tc w) = Inl RequestCountError"
proof (induction "nat (max_requests - requests_count w)" arbitrary: w tok h ic tc)
  case 0
  then have "requests_count w \<ge> max_requests" by simp
  then show ?case
    by (subst fetch_loop.simps) (simp add: connect_at_limit Let_def)
next
  case (Suc n)
  then have lt: "requests_count w < max_requests" by simp
  define url where "url = liked_tweets_url uid (Some ''author_id,attachments.media_keys'')
                  (Some ''created_at,entities'') None (Some ''url'') tok"
  define w1 where "w1 = w\<lparr>sent := sent w @ [url], requests_count := requests_count w + 1\<rparr>"
  have c: "connect_to_endpoint endless_env url w = (Inr (photo_page [''7''] (Some (Some ''tok''))), w1)"
    using lt by (simp add: connect_to_endpoint_def endless_env_def Let_def w1_def)
  have p1: "processed_tweets w1 = []" using Suc.prems by (simp add: w1_def)
  define w2 where "w2 = w1\<lparr>saved_imgs := saved_imgs w1 @ [''https://pbs.twimg.com/media/7.jpg''],
                         new_processed_tweets := new_processed_tweets w1 @ [''7'']\<rparr>"
  have p: "process_response_for_imgs endless_env w1 uid (photo_page [''7''] (Some (Some ''tok''))) False
     = (Inr [0, 1, 1], w2)"
    unfolding w2_def by (rule endless_page [OF p1])
  have m: "n = nat (max_requests - requests_count w2)"
    using Suc.hyps(2) by (simp add: w2_def w1_def)
  have p2: "processed_tweets w2 = []" using p1 by (simp add: w2_def)
  have ih: "fst (fetch_loop endless_env uid False (Some ''tok'') 0 (ic + 1) (tc + 1) w2) = Inl RequestCountError"
    by (rule Suc.hyps(1) [OF m p2])
  have d: "data (photo_page [''7''] (Some (Some ''tok''))) \<noteq> None"
          "meta (photo_page [''7''] (Some (Some ''tok''))) = Some (Some ''tok'')"
    by (simp_all add: photo_page_def)
  show ?case
    using ih d
    by (subst fetch_loop.simps)
       (simp add: Let_def url_def [symmetric] c p unpack3_def)
qed

text \<open>
  Claim C2. When the budget is exhausted \<open>connect_to_endpoint\<close> raises
  \<open>RequestCountError\<close>, and the engine should turn it into \<open>halt = 1\<close>. The \<open>except\<close> of
  \<open>process_usr_for_liked\<close> names \<open>UnsuccessfulRequestError\<close> only, so on a feed that
  outlasts the budget (here a server that always has one more page) the run does not
  halt with 1: \<open>RequestCountError\<close> leaves \<open>process_usr_for_liked\<close> as an exception.
\<close>

theorem request_budget_error_propagates:
  "fst (process_usr_for_liked endless_env init_world ''2244994945'' None False) = Inl RequestCountError"
proof -
  have "processed_tweets init_world = []" by (simp add: init_world_def)
  from endless_fetch [OF this, of "''2244994945''" None 0 0 0]
  show ?thesis
    by (auto simp: process_usr_for_liked_def split: prod.splits sum.splits error.splits)
qed


section \<open>The duplicate halt\<close>

lemma process_item_processed:
  "process_item ev uid id2usr m t w = (r, w') \<Longrightarrow> processed_tweets w' = processed_tweets w"
  using process_item_frame [of processed_tweets ev uid id2usr m t w] by simp

lemma tweets_loop_append_known:
  assumes "media_keys t \<noteq> None" "tweet_id t \<in> set (processed_tweets w)" "\<not> ign"
  shows "tweets_loop ev uid id2usr m ign (pre @ t # post) ic tc w
         = set_halt2 (tweets_loop ev uid id2usr m ign pre ic tc w)"
  using assms
proof (induction pre arbitrary: ic tc w)
  case Nil
  then show ?case by (auto simp: set_halt2_def)
next
  case (Cons x pre)
  show ?case
  proof (cases "media_keys x")
    case None
    then show ?thesis using Cons by simp
  next
    case (Some ks)
    show ?thesis
    proof (cases "tweet_id x \<in> set (processed_tweets w)")
      case True
      then show ?thesis using Some Cons.prems by (simp add: set_halt2_def)
    next
      case False
      obtain r1 w1 where p: "process_item ev uid id2usr m x w = (r1, w1)"
        by (cases "process_item ev uid id2usr m x w")
      have f1: "processed_tweets w1 = processed_tweets w"
        by (rule process_item_processed [OF p])
      show ?thesis
      proof (cases r1)
        case (Inl e)
        then show ?thesis using Some False p Cons.prems by (simp add: set_halt2_def)
      next
        case (Inr n)
        have "tweets_loop ev uid id2usr m ign (pre @ t # post) (ic + n) (tc + 1) w1
                  = set_halt2 (tweets_loop ev uid id2usr m ign pre (ic + n) (tc + 1) w1)"
          using Cons.IH [of w1 "ic + n" "tc + 1"] Cons.prems f1 by simp
        then show ?thesis using Some False p Inr Cons.prems by simp
      qed
    qed
  qed
qed

lemma process_item_ok:
  assumes "media_keys t \<noteq> None" "id2usr (author_id t) \<noteq> None"
  shows "\<exists>n w'. process_item ev uid id2usr m t w = (Inr n, w') \<and>
           new_processed_tweets w' = new_processed_tweets w @ [tweet_id t]"
proof -
  obtain ks a where k: "media_keys t = Some ks" "id2usr (author_id t) = Some a"
    using assms by auto
  define w1 where "w1 = snd (media_loop ev m ks 0 w)"
  define w2 where "w2 = w1\<lparr>new_processed_tweets := new_processed_tweets w1 @ [tweet_id t]\<rparr>"
  have n1: "new_processed_tweets w1 = new_processed_tweets w"
    unfolding w1_def by (rule media_loop_frame) simp
  have p: "process_tweet_for_media ev t id2usr m w = (Inr (fst (media_loop ev m ks 0 w)), w1)"
    by (simp add: process_tweet_for_media_def k Let_def w1_def)
  have r: "\<exists>w3. reg_external_url w2 uid t id2usr = (Inr False, w3) \<and> new_processed_tweets w3 = new_processed_tweets w2"
    by (simp add: reg_external_url_def k Let_def)
  show ?thesis
    using r n1 by (auto simp: process_item_def p w2_def [symmetric] Let_def) (simp add: w2_def)
qed

lemma tweets_loop_all_new:
  assumes "\<forall>x\<in>set pre. media_keys x \<noteq> None \<longrightarrow>
             (ign \<or> tweet_id x \<notin> set (processed_tweets w)) \<and> id2usr (author_id x) \<noteq> None"
  shows "\<exists>imgs w'. tweets_loop ev uid id2usr m ign pre ic tc w
            = (Inr [0, imgs, tc + int (length (filter has_media pre))], w') \<and>
           new_processed_tweets w' = new_processed_tweets w @ map tweet_id (filter has_media pre)"
  using assms
proof (induction pre arbitrary: ic tc w)
  case Nil
  then show ?case by simp
next
  case (Cons x pre)
  show ?case
  proof (cases "media_keys x")
    case None
    then show ?thesis using Cons.IH [of w ic tc] Cons.prems by (simp add: has_media_def)
  next
    case (Some ks)
    have x: "ign \<or> tweet_id x \<notin> set (processed_tweets w)" "id2usr (author_id x) \<noteq> None"
      using Cons.prems Some by auto
    obtain n w1 where p: "process_item ev uid id2usr m x w = (Inr n, w1)"
      and n1: "new_processed_tweets w1 = new_processed_tweets w @ [tweet_id x]"
      using process_item_ok [of x id2usr ev uid m w] Some x(2) by auto
    have f1: "processed_tweets w1 = processed_tweets w"
      by (rule process_item_processed [OF p])
    have "\<forall>y\<in>set pre. media_keys y \<noteq> None \<longrightarrow>
             (ign \<or> tweet_id y \<notin> set (processed_tweets w1)) \<and> id2usr (author_id y) \<noteq> None"
      using Cons.prems f1 by simp
    from Cons.IH [OF this, of "ic + n" "tc + 1"]
    show ?thesis using Some x p n1 by (auto simp: has_media_def)
  qed
qed

lemma page_dedup:
  assumes "data r = Some (pre @ t # post)" "gen_media2url r = Inr m"
    and "media_keys t \<noteq> None" "tweet_id t \<in> set (processed_tweets w)" "\<not> ign"
    and "\<forall>x\<in>set pre. media_keys x \<noteq> None \<longrightarrow>
           tweet_id x \<notin> set (processed_tweets w) \<and> gen_id2usr r (author_id x) \<noteq> None"
  shows "\<exists>imgs w'. process_response_for_imgs ev w uid r ign
              = (Inr [2, imgs, int (length (filter has_media pre))], w') \<and>
            new_processed_tweets w' = new_processed_tweets w @ map tweet_id (filter has_media pre)"
proof -
  have "\<forall>x\<in>set pre. media_keys x \<noteq> None \<longrightarrow>
             (ign \<or> tweet_id x \<notin> set (processed_tweets w)) \<and> gen_id2usr r (author_id x) \<noteq> None"
    using assms(6) by simp
  from tweets_loop_all_new [OF this, of ev uid m 0 0]
  obtain imgs w' where l: "tweets_loop ev uid (gen_id2usr r) m ign pre 0 0 w
            = (Inr [0, imgs, int (length (filter has_media pre))], w')"
      and n: "new_processed_tweets w' = new_processed_tweets w @ map tweet_id (filter has_media pre)"
    by auto
  have "tweets_loop ev uid (gen_id2usr r) m ign (pre @ t # post) 0 0 w
          = (Inr [2, imgs, int (length (filter has_media pre))], w')"
    using tweets_loop_append_known [OF assms(3,4,5), of ev uid "gen_id2usr r" m pre post 0 0] l
    by (simp add: set_halt2_def)
  then show ?thesis using n assms(1,2) by (simp add: process_response_for_imgs_def)
qed

lemma page_dedup_rest_unread:
  assumes "data r = Some (pre @ t # post)"
    and "media_keys t \<noteq> None" "tweet_id t \<in> set (processed_tweets w)" "\<not> ign"
  shows "process_response_for_imgs ev w uid (r\<lparr>data := Some (pre @ [t])\<rparr>) ign
           = process_response_for_imgs ev w uid r ign"
proof (cases "gen_media2url r")
  case (Inl e)
  then show ?thesis using assms(1)
    by (simp add: process_response_for_imgs_def gen_media2url_def)
next
  case (Inr m)
  have g: "gen_media2url (r\<lparr>data := Some (pre @ [t])\<rparr>) = Inr m"
       "gen_id2usr (r\<lparr>data := Some (pre @ [t])\<rparr>) = gen_id2usr r"
    using Inr by (simp_all add: gen_media2url_def gen_id2usr_def)
  show ?thesis
    using tweets_loop_append_known [OF assms(2,3,4), of ev uid "gen_id2usr r" m pre post 0 0]
      tweets_loop_append_known [OF assms(2,3,4), of ev uid "gen_id2usr r" m pre "[]" 0 0]
      Inr g assms(1)
    by (simp add: process_response_for_imgs_def)
qed

lemma fetch_loop_halts_on_page:
  assumes c: "connect_to_endpoint ev (page_url uid tok) w0 = (Inr r, w)"
    and p: "process_response_for_imgs ev w uid r ign = (Inr [hlt, imgs, n], w')"
    and d: "data r \<noteq> None" and h: "hlt > 0" and v: "\<not> is_verbose w0 \<or> meta r \<noteq> None"
  shows "fetch_loop ev uid ign tok h0 ic tc w0 = (Inr hlt, ic + imgs, tc + n, w')"
proof -
  have "is_verbose w = is_verbose w0"
    using c by (auto simp: connect_to_endpoint_def Let_def split: if_splits)
  moreover have "is_verbose w' = is_verbose w"
    using process_response_for_imgs_frame [of is_verbose ev w uid r ign] p by simp
  ultimately have v': "\<not> (is_verbose w' \<and> meta r = None)" using v by simp
  show ?thesis
    using c p d h v'
    by (subst fetch_loop.simps) (auto simp: Let_def page_url_def unpack3_def)
qed

lemma photo_page_fields:
  "data (photo_page ids mt) = Some (map photo_tweet ids)"
  "meta (photo_page ids mt) = mt"
  "gen_id2usr (photo_page ids mt) ''77'' = Some ''artist''"
  by (simp_all add: photo_page_def gen_id2usr_def)

lemma media_dict_photos:
  "\<exists>m. media_dict (map (\<lambda>i. \<lparr>media_key = f i, media_type = ''photo'', media_url = Some (g i)\<rparr>) ids) acc = Inr m"
  by (induction ids arbitrary: acc) simp_all

lemma photo_page_media: "\<exists>m. gen_media2url (photo_page ids mt) = Inr m"
  using media_dict_photos [of "\<lambda>i. ''3_'' @ i" "\<lambda>i. ''https://pbs.twimg.com/media/'' @ i @ ''.jpg''" ids Map.empty]
  by (simp add: gen_media2url_def photo_page_def)

lemma photo_tweet_fields:
  "media_keys (photo_tweet i) \<noteq> None" "tweet_id (photo_tweet i) = i" "author_id (photo_tweet i) = ''77''"
  "has_media (photo_tweet i)"
  by (simp_all add: photo_tweet_def has_media_def)

text \<open>
  Claim C3, as the code has it. The loop looks only at the items that carry
  \<open>attachments.media_keys\<close>; the others are skipped without being compared or
  recorded. On a page whose media expansion is present, if \<open>ignore_processed\<close> is
  false and \<open>t\<close> is an item with media keys whose ID is known, and the media items
  before it are unknown and have their author among the users, then the page returns
  \<open>halt = 2\<close>, exactly the media items before \<open>t\<close> are recorded as newly processed, in
  order, the result is the one of the page cut after \<open>t\<close> (the items after \<open>t\<close> are not
  looked at), and the fetch loop returns \<open>halt = 2\<close> having sent no request after the
  one of this page.
\<close>

theorem dedup_halt:
  assumes "data r = Some (pre @ t # post)"
    and "\<exists>m. gen_media2url r = Inr m"
    and "media_keys t \<noteq> None" and "tweet_id t \<in> set (processed_tweets w)" and "\<not> ign"
    and "\<forall>x\<in>set pre. media_keys x \<noteq> None \<longrightarrow>
           tweet_id x \<notin> set (processed_tweets w) \<and> gen_id2usr r (author_id x) \<noteq> None"
  shows "\<exists>imgs w'.
           process_response_for_imgs ev w uid r ign
              = (Inr [2, imgs, int (length (filter has_media pre))], w') \<and>
           new_processed_tweets w' = new_processed_tweets w @ map tweet_id (filter has_media pre) \<and>
           process_response_for_imgs ev w uid (r\<lparr>data := Some (pre @ [t])\<rparr>) ign
              = process_response_for_imgs ev w uid r ign \<and>
           (\<forall>w0 tok h0 ic tc.
              connect_to_endpoint ev (page_url uid tok) w0 = (Inr r, w) \<and>
              (\<not> is_verbose w0 \<or> meta r \<noteq> None) \<longrightarrow>
              fetch_loop ev uid ign tok h0 ic tc w0
                = (Inr 2, ic + imgs, tc + int (length (filter has_media pre)), w') \<and>
              sent w' = sent w0 @ [page_url uid tok])"
proof -
  obtain m where m: "gen_media2url r = Inr m" using assms(2) by blast
  obtain imgs w' where p: "process_response_for_imgs ev w uid r ign
              = (Inr [2, imgs, int (length (filter has_media pre))], w')"
    and n: "new_processed_tweets w' = new_processed_tweets w @ map tweet_id (filter has_media pre)"
    using page_dedup [OF assms(1) m assms(3,4,5,6), of ev uid] by blast
  have u: "process_response_for_imgs ev w uid (r\<lparr>data := Some (pre @ [t])\<rparr>) ign
              = process_response_for_imgs ev w uid r ign"
    by (rule page_dedup_rest_unread [OF assms(1,3,4,5)])
  have s: "sent w' = sent w"
    using process_response_for_imgs_frame [of sent ev w uid r ign] p by simp
  have f: "fetch_loop ev uid ign tok h0 ic tc w0
                = (Inr 2, ic + imgs, tc + int (length (filter has_media pre)), w') \<and>
              sent w' = sent w0 @ [page_url uid tok]"
    if c: "connect_to_endpoint ev (page_url uid tok) w0 = (Inr r, w)"
      and v: "\<not> is_verbose w0 \<or> meta r \<noteq> None" for w0 tok h0 ic tc
  proof -
    have "data r \<noteq> None" using assms(1) by simp
    from fetch_loop_halts_on_page [OF c p this _ v, of h0 ic tc]
    have "fetch_loop ev uid ign tok h0 ic tc w0
                = (Inr 2, ic + imgs, tc + int (length (filter has_media pre)), w')" by simp
    moreover have "sent w = sent w0 @ [page_url uid tok]"
      using c by (auto simp: connect_to_endpoint_def Let_def split: if_splits)
    ultimately show ?thesis using s by simp
  qed
  show ?thesis using p n u f by blast
qed

text \<open>
  The scenario of the claim: known IDs 5, 4, 3 and the page 7, 6, 5, 4, 3, every tweet
  with a photo.
\<close>

theorem dedup_halt_witness:
  "\<exists>imgs w'.
     process_response_for_imgs feed_env
        (snd (connect_to_endpoint feed_env (page_url ''2244994945'' None) (known_world [''5'', ''4'', ''3''])))
        ''2244994945'' (photo_page [''7'', ''6'', ''5'', ''4'', ''3''] (Some None)) False
       = (Inr [2, imgs, 2], w') \<and>
     new_processed_tweets w' = [''7'', ''6''] \<and>
     fetch_loop feed_env ''2244994945'' False None 0 0 0 (known_world [''5'', ''4'', ''3''])
       = (Inr 2, imgs, 2, w') \<and>
     sent w' = [page_url ''2244994945'' None]"
proof -
  define w0 where "w0 = known_world [''5'', ''4'', ''3'']"
  define r where "r = photo_page [''7'', ''6'', ''5'', ''4'', ''3''] (Some None)"
  define w where "w = snd (connect_to_endpoint feed_env (page_url ''2244994945'' None) w0)"
  have w0: "requests_count w0 = 0" "sent w0 = []" "\<not> is_verbose w0"
      "processed_tweets w0 = [''5'', ''4'', ''3'']" "new_processed_tweets w0 = []"
    by (simp_all add: w0_def known_world_def init_world_def)
  have c: "connect_to_endpoint feed_env (page_url ''2244994945'' None) w0 = (Inr r, w)"
    unfolding w_def using w0(1)
    by (simp add: connect_to_endpoint_def feed_env_def Let_def r_def max_requests_def)
  have w: "processed_tweets w = [''5'', ''4'', ''3'']" "new_processed_tweets w = []"
    unfolding w_def using w0
    by (simp_all add: connect_to_endpoint_def Let_def max_requests_def)
  have d: "data r = Some ([photo_tweet ''7'', photo_tweet ''6''] @ photo_tweet ''5'' # [photo_tweet ''4'', photo_tweet ''3''])"
    by (simp add: r_def photo_page_fields)
  have g: "\<exists>m. gen_media2url r = Inr m" unfolding r_def by (rule photo_page_media)
  have k: "tweet_id (photo_tweet ''5'') \<in> set (processed_tweets w)"
    by (simp add: w photo_tweet_fields)
  have pre: "\<forall>x\<in>set [photo_tweet ''7'', photo_tweet ''6'']. media_keys x \<noteq> None \<longrightarrow>
           tweet_id x \<notin> set (processed_tweets w) \<and> gen_id2usr r (author_id x) \<noteq> None"
    by (simp add: w photo_tweet_fields r_def photo_page_fields)
  have v: "\<not> is_verbose w0 \<or> meta r \<noteq> None" using w0 by simp
  from dedup_halt [OF d g photo_tweet_fields(1) k _ pre, of False feed_env "''2244994945''"]
  obtain imgs w' where
    p: "process_response_for_imgs feed_env w ''2244994945'' r False = (Inr [2, imgs, 2], w')"
    and n: "new_processed_tweets w' = [''7'', ''6'']"
    and f: "\<And>w0 tok h0 ic tc. connect_to_endpoint feed_env (page_url ''2244994945'' tok) w0 = (Inr r, w) \<Longrightarrow>
              \<not> is_verbose w0 \<or> meta r \<noteq> None \<Longrightarrow>
              fetch_loop feed_env ''2244994945'' False tok h0 ic tc w0 = (Inr 2, ic + imgs, tc + 2, w') \<and>
              sent w' = sent w0 @ [page_url ''2244994945'' tok]"
    by (auto simp: w photo_tweet_fields)
  from f [OF c v, of 0 0 0] p n show ?thesis
    unfolding w_def w0_def r_def using w0(2) by (auto simp: w0_def)
qed

text \<open>
  The claim as stated fails on an item without attachments: its ID is known, and the
  page returns \<open>halt = 0\<close>.
\<close>

theorem dedup_halt_counterexample:
  "tweet_id (plain_tweet ''5'') \<in> set (processed_tweets (known_world [''5''])) \<and>
   data plain_page = Some [plain_tweet ''5''] \<and>
   process_response_for_imgs feed_env (known_world [''5'']) ''2244994945'' plain_page False
     = (Inr [0, 0, 0], known_world [''5''])"
  by (simp add: process_response_for_imgs_def plain_page_def plain_tweet_def known_world_def
        gen_media2url_def)


section \<open>The flush of the metadata store\<close>

lemma last_writer_Some: "last_writer p ids = Some j \<Longrightarrow> j \<in> set ids \<and> get_file j = p"
  by (induction ids) (auto split: option.splits if_splits)

lemma last_writer_None: "last_writer p ids = None \<longleftrightarrow> p \<notin> get_file ` set ids"
  by (induction ids) (auto split: option.splits if_splits)

lemma flush_ids_ok:
  assumes "\<forall>i\<in>set ids. entity_dir i \<in> dirs w \<and> loaded_data w i \<noteq> None"
    and "loaded_data w = loaded_data w0" 
  shows "flush_ids ids w = (Inr (), w\<lparr>files := (\<lambda>p. case last_writer p ids of
                                None \<Rightarrow> files w p
                              | Some i \<Rightarrow> Some (snapshot_of w0 i))\<rparr>)"
  using assms
proof (induction ids arbitrary: w)
  case Nil
  then show ?case by simp
next
  case (Cons i ids)
  obtain d where d: "loaded_data w i = Some d" using Cons.prems by auto
  define w1 where "w1 = w\<lparr>files := (files w)(get_file i \<mapsto> json_dumps d)\<rparr>"
  have 1: "\<forall>j\<in>set ids. entity_dir j \<in> dirs w1 \<and> loaded_data w1 j \<noteq> None"
    using Cons.prems by (simp add: w1_def)
  have 2: "loaded_data w1 = loaded_data w0" using Cons.prems by (simp add: w1_def)
  have s: "snapshot_of w0 i = json_dumps d"
    using d Cons.prems(2) by (simp add: snapshot_of_def)
  have "(\<lambda>p. case last_writer p ids of
                 None \<Rightarrow> files w1 p | Some i \<Rightarrow> Some (snapshot_of w0 i))
        = (\<lambda>p. case last_writer p (i # ids) of
                 None \<Rightarrow> files w p | Some i \<Rightarrow> Some (snapshot_of w0 i))"
    by (rule ext) (auto simp: w1_def s split: option.splits)
  then show ?case
    using Cons.IH [OF 1 2] Cons.prems d by (simp add: w1_def)
qed

lemma pd_save_to_file_ok:
  assumes "flushable w"
  shows "pd_save_to_file w = (Inr (), w\<lparr>files := flushed_files w (data_modified w)\<rparr>)"
  using flush_ids_ok [of "data_modified w" w w] assms
  by (simp add: pd_save_to_file_def flushable_def flushed_files_def)

lemma flushed_files_idem:
  "flushed_files (w\<lparr>files := flushed_files w ids\<rparr>) ids = flushed_files w ids"
  by (rule ext) (simp add: flushed_files_def snapshot_of_def split: option.splits)


lemma flushed_files_Nil [simp]: "flushed_files w [] = files w"
  by (rule ext) (simp add: flushed_files_def)

lemma flush_ids_frame:
  assumes "\<And>w x. sel (w\<lparr>files := x\<rparr>) = sel w"
  shows "sel (snd (flush_ids ids w)) = sel w"
  by (induction ids arbitrary: w) (auto simp: assms split: option.splits)

lemma flush_ids_append:
  "flush_ids (xs @ ys) w
     = (case flush_ids xs w of (Inl e, w1) \<Rightarrow> (Inl e, w1) | (Inr _, w1) \<Rightarrow> flush_ids ys w1)"
  by (induction xs arbitrary: w) (auto split: option.splits)

lemma flush_ids_stop:
  assumes "list_all (writable w) pre" "\<not> writable w i"
  shows "flush_ids (pre @ i # rest) w
         = (if entity_dir i \<notin> dirs w
            then (Inl FileNotFoundError, w\<lparr>files := flushed_files w pre\<rparr>)
            else (Inl KeyError, w\<lparr>files := (flushed_files w pre)(get_file i \<mapsto> [])\<rparr>))"
proof -
  have "flush_ids pre w = (Inr (), w\<lparr>files := flushed_files w pre\<rparr>)"
    using flush_ids_ok [of pre w w] assms(1)
    by (simp add: list_all_iff writable_def flushed_files_def)
  then show ?thesis
    using assms(2) by (auto simp: flush_ids_append writable_def)
qed

text \<open>
  Claim C9, as the code has it. \<open>save_to_file\<close> of persistent_data.py goes through the
  dirty list in order and never clears it: the list holds every ID marked dirty since
  the program started. When every ID of the list has its directory and a loaded
  record, the flush writes, for each ID of the list, the full record as JSON to that
  ID's snapshot file, and changes no other file and nothing else of the state; a
  second flush with no mutation in between writes the same bytes, so the state after
  it is the state before it. At the first ID of the list whose directory is missing
  the flush raises \<open>FileNotFoundError\<close> (\<open>KeyError\<close> when the directory is there and the
  record is not, the file left empty), with the snapshots of the IDs before it written
  and those of the IDs after it not.
\<close>

theorem flush_writes_dirty_list:
  "data_modified (snd (pd_save_to_file w)) = data_modified w \<and>
   loaded_data (snd (pd_save_to_file w)) = loaded_data w \<and>
   dirs (snd (pd_save_to_file w)) = dirs w \<and>
   (flushable w \<longrightarrow>
      pd_save_to_file w = (Inr (), w\<lparr>files := flushed_files w (data_modified w)\<rparr>) \<and>
      (\<forall>i\<in>set (data_modified w). \<exists>j\<in>set (data_modified w).
          get_file j = get_file i \<and>
          flushed_files w (data_modified w) (get_file i) = Some (snapshot_of w j)) \<and>
      (\<forall>p. p \<notin> get_file ` set (data_modified w) \<longrightarrow>
          flushed_files w (data_modified w) p = files w p) \<and>
      pd_save_to_file (snd (pd_save_to_file w)) = (Inr (), snd (pd_save_to_file w))) \<and>
   (\<forall>pre i rest.
      data_modified w = pre @ i # rest \<and> list_all (writable w) pre \<and> \<not> writable w i \<longrightarrow>
      pd_save_to_file w
        = (if entity_dir i \<notin> dirs w
           then (Inl FileNotFoundError, w\<lparr>files := flushed_files w pre\<rparr>)
           else (Inl KeyError, w\<lparr>files := (flushed_files w pre)(get_file i \<mapsto> [])\<rparr>)) \<and>
      (\<forall>p. p \<notin> get_file ` set (pre @ [i]) \<longrightarrow> files (snd (pd_save_to_file w)) p = files w p))"
proof -
  have fr: "data_modified (snd (pd_save_to_file w)) = data_modified w"
    "loaded_data (snd (pd_save_to_file w)) = loaded_data w"
    "dirs (snd (pd_save_to_file w)) = dirs w"
    unfolding pd_save_to_file_def by (rule flush_ids_frame, simp)+
  have ok: "pd_save_to_file w = (Inr (), w\<lparr>files := flushed_files w (data_modified w)\<rparr>) \<and>
      (\<forall>i\<in>set (data_modified w). \<exists>j\<in>set (data_modified w).
          get_file j = get_file i \<and>
          flushed_files w (data_modified w) (get_file i) = Some (snapshot_of w j)) \<and>
      (\<forall>p. p \<notin> get_file ` set (data_modified w) \<longrightarrow>
          flushed_files w (data_modified w) p = files w p) \<and>
      pd_save_to_file (snd (pd_save_to_file w)) = (Inr (), snd (pd_save_to_file w))"
    if fl: "flushable w"
  proof -
    let ?w' = "w\<lparr>files := flushed_files w (data_modified w)\<rparr>"
    have a: "pd_save_to_file w = (Inr (), ?w')" by (rule pd_save_to_file_ok [OF fl])
    have b: "\<exists>j\<in>set (data_modified w). get_file j = get_file i \<and>
               flushed_files w (data_modified w) (get_file i) = Some (snapshot_of w j)"
      if "i \<in> set (data_modified w)" for i
    proof (cases "last_writer (get_file i) (data_modified w)")
      case None
      then show ?thesis using that by (auto simp: last_writer_None)
    next
      case (Some j)
      then show ?thesis using last_writer_Some [OF Some] by (auto simp: flushed_files_def)
    qed
    have c: "flushed_files w (data_modified w) p = files w p"
      if "p \<notin> get_file ` set (data_modified w)" for p
      using that last_writer_None [of p "data_modified w"] by (simp add: flushed_files_def)
    have f: "flushable ?w'" using fl by (simp add: flushable_def)
    have e: "pd_save_to_file ?w' = (Inr (), ?w')"
      using pd_save_to_file_ok [OF f] flushed_files_idem [of w "data_modified w"] by simp
    show ?thesis using a b c e by simp
  qed
  have stop: "pd_save_to_file w
        = (if entity_dir i \<notin> dirs w
           then (Inl FileNotFoundError, w\<lparr>files := flushed_files w pre\<rparr>)
           else (Inl KeyError, w\<lparr>files := (flushed_files w pre)(get_file i \<mapsto> [])\<rparr>)) \<and>
      (\<forall>p. p \<notin> get_file ` set (pre @ [i]) \<longrightarrow> files (snd (pd_save_to_file w)) p = files w p)"
    if "data_modified w = pre @ i # rest \<and> list_all (writable w) pre \<and> \<not> writable w i"
    for pre i rest
  proof -
    have s: "pd_save_to_file w
        = (if entity_dir i \<notin> dirs w
           then (Inl FileNotFoundError, w\<lparr>files := flushed_files w pre\<rparr>)
           else (Inl KeyError, w\<lparr>files := (flushed_files w pre)(get_file i \<mapsto> [])\<rparr>))"
      using that flush_ids_stop [of w pre i rest] by (simp add: pd_save_to_file_def)
    have "flushed_files w pre p = files w p" if "p \<notin> get_file ` set pre" for p
      using that last_writer_None [of p pre] by (simp add: flushed_files_def)
    then show ?thesis unfolding s by auto
  qed
  show ?thesis using fr ok stop by blast
qed

lemma key_requests_made:
  "key_prefix ''requests_made'' = []" "key_last ''requests_made'' = ''requests_made''"
  by (simp_all add: key_prefix_def key_last_def)

lemma world_a_eval:
  "world_a = two_dirs_world\<lparr>
      loaded_data := [Usr ''1111'' \<mapsto> PDict
         [(''twt_db'', PDict [(''file_num'', PInt 1), (''line_count'', PList [])]),
          (''liked_tweets'', PDict [(''count'', PInt 0), (''with_external_urls'', PInt 0)]),
          (''imgs_downloaded'', PInt 0),
          (''requests_made'', PInt 3)]],
      data_modified := [Usr ''1111'']\<rparr>"
  by (simp add: world_a_def set_data_def two_dirs_world_def init_world_def default_if_nonexistent_def
        set_as_modified_def dw_set_def key_requests_made set_in_dict_def py_contains_def
        py_getitem_def py_setitem_def default_vals_def Let_def)

lemma flushable_world_a: "flushable world_a"
  by (simp add: flushable_def world_a_eval two_dirs_world_def entity_dir_def str_entity_def)

lemma world_a_flushed_eval:
  "world_a_flushed = world_a\<lparr>files := flushed_files world_a [Usr ''1111'']\<rparr>"
  using pd_save_to_file_ok [OF flushable_world_a]
  by (simp add: world_a_flushed_def) (simp add: world_a_eval)

lemma world_ab_fields:
  "data_modified world_ab = [Usr ''1111'', Usr ''2222'']"
  "dirs world_ab = {''./1111/'', ''./2222/''}"
  "loaded_data world_ab (Usr ''1111'') = loaded_data world_a (Usr ''1111'')"
  "loaded_data world_ab (Usr ''2222'') \<noteq> None"
  "files world_ab (get_file (Usr ''1111'')) = None"
  by (simp_all add: world_ab_def world_a_flushed_eval world_a_eval set_data_def two_dirs_world_def
        init_world_def default_if_nonexistent_def
        set_as_modified_def dw_set_def key_requests_made set_in_dict_def py_contains_def
        py_getitem_def py_setitem_def default_vals_def Let_def)


lemma world_c_fields:
  "data_modified world_c = [Usr ''1111'', Usr ''2222'']"
  "dirs world_c = {''./2222/''}"
  "files world_c = Map.empty"
  by (simp_all add: world_c_def one_dir_world_def set_data_def
        init_world_def default_if_nonexistent_def
        set_as_modified_def dw_set_def key_requests_made set_in_dict_def py_contains_def
        py_getitem_def py_setitem_def default_vals_def Let_def)

theorem flush_writes_dirty_list_witness:
  "flushable world_a \<and>
   data_modified world_a = [Usr ''1111''] \<and>
   files (snd (pd_save_to_file world_a)) (get_file (Usr ''1111'')) = Some (snapshot_of world_a (Usr ''1111'')) \<and>
   files (snd (pd_save_to_file world_a)) (get_file (Usr ''2222'')) = None \<and>
   data_modified (snd (pd_save_to_file world_a)) = [Usr ''1111''] \<and>
   pd_save_to_file (snd (pd_save_to_file world_a)) = (Inr (), snd (pd_save_to_file world_a)) \<and>
   data_modified world_c = [Usr ''1111'', Usr ''2222''] \<and>
   \<not> writable world_c (Usr ''1111'') \<and>
   pd_save_to_file world_c = (Inl FileNotFoundError, world_c) \<and>
   files (snd (pd_save_to_file world_c)) (get_file (Usr ''2222'')) = None"
proof -
  have d: "data_modified world_a = [Usr ''1111'']" by (simp add: world_a_eval)
  have f: "files world_a (get_file (Usr ''2222'')) = None"
    by (simp add: world_a_eval two_dirs_world_def init_world_def)
  have n: "get_file (Usr ''2222'') \<noteq> get_file (Usr ''1111'')"
    by (simp add: get_file_def str_entity_def)
  from flush_writes_dirty_list [of world_a] flushable_world_a d f n
  have a: "files (snd (pd_save_to_file world_a)) (get_file (Usr ''1111'')) = Some (snapshot_of world_a (Usr ''1111'')) \<and>
   files (snd (pd_save_to_file world_a)) (get_file (Usr ''2222'')) = None \<and>
   data_modified (snd (pd_save_to_file world_a)) = [Usr ''1111''] \<and>
   pd_save_to_file (snd (pd_save_to_file world_a)) = (Inr (), snd (pd_save_to_file world_a))"
    by auto
  have nw: "\<not> writable world_c (Usr ''1111'')"
    by (simp add: writable_def world_c_fields entity_dir_def str_entity_def)
  have e: "data_modified world_c = [] @ Usr ''1111'' # [Usr ''2222''] \<and>
           list_all (writable world_c) [] \<and> \<not> writable world_c (Usr ''1111'')"
    using nw by (simp add: world_c_fields)
  have nd: "entity_dir (Usr ''1111'') \<notin> dirs world_c"
    by (simp add: world_c_fields entity_dir_def str_entity_def)
  from flush_writes_dirty_list [of world_c] e
  have "pd_save_to_file world_c
        = (if entity_dir (Usr ''1111'') \<notin> dirs world_c
           then (Inl FileNotFoundError, world_c\<lparr>files := flushed_files world_c []\<rparr>)
           else (Inl KeyError, world_c\<lparr>files := (flushed_files world_c [])(get_file (Usr ''1111'') \<mapsto> [])\<rparr>))"
    by blast
  then have c: "pd_save_to_file world_c = (Inl FileNotFoundError, world_c)"
    using nd by simp
  have c2: "files (snd (pd_save_to_file world_c)) (get_file (Usr ''2222'')) = None"
    unfolding c by (simp add: world_c_fields)
  show ?thesis using flushable_world_a d a nw c c2 by (simp add: world_c_fields)
qed

text \<open>
  The claim as stated fails: user 1111 is flushed, then only user 2222 is changed, and
  the next flush writes the snapshot of user 1111 again (its file, removed from the disk
  in between, is back).
\<close>

theorem flush_writes_dirty_list_counterexample:
  "data_modified world_a_flushed = [Usr ''1111''] \<and>
   data_modified world_ab = [Usr ''1111'', Usr ''2222''] \<and>
   files world_ab (get_file (Usr ''1111'')) = None \<and>
   files (snd (pd_save_to_file world_ab)) (get_file (Usr ''1111''))
     = Some (snapshot_of world_ab (Usr ''1111''))"
proof -
  have fl: "flushable world_ab"
    using world_ab_fields flushable_world_a
    by (auto simp: flushable_def entity_dir_def str_entity_def world_a_eval)
  have n: "get_file (Usr ''2222'') \<noteq> get_file (Usr ''1111'')"
    by (simp add: get_file_def str_entity_def)
  have "files (snd (pd_save_to_file world_ab)) (get_file (Usr ''1111''))
     = Some (snapshot_of world_ab (Usr ''1111''))"
    using pd_save_to_file_ok [OF fl] n
    by (simp add: world_ab_fields flushed_files_def)
  then show ?thesis
    by (simp add: world_ab_fields) (simp add: world_a_flushed_eval world_a_eval)
qed

section \<open>Decimal numerals and file paths\<close>

lemma digit_char_code: "d < 10 \<Longrightarrow> (of_char (digit_char d) :: nat) = 48 + d"
proof -
  assume d: "d < 10"
  have "(of_char (char_of (48 + d)) :: nat) = (48 + d) mod 256" by (rule of_char_of)
  also have "\<dots> = 48 + d" using d by (intro mod_less) arith
  finally show ?thesis by (simp only: digit_char_def)
qed

lemma digit_char_inj: "d < 10 \<Longrightarrow> e < 10 \<Longrightarrow> digit_char d = digit_char e \<Longrightarrow> d = e"
proof -
  assume d: "d < 10" and e: "e < 10" and eq: "digit_char d = digit_char e"
  have "(of_char (digit_char d) :: nat) = of_char (digit_char e)" by (simp only: eq)
  then have "48 + d = 48 + e" by (simp only: digit_char_code [OF d] digit_char_code [OF e])
  then show ?thesis by arith
qed

lemma is_digit_digit_char: "d < 10 \<Longrightarrow> is_digit (digit_char d)"
proof -
  assume d: "d < 10"
  show ?thesis unfolding is_digit_def digit_char_code [OF d] using d by arith
qed

lemma str_nat_digits: "list_all is_digit (str_nat n)"
proof (induction n rule: str_nat.induct)
  case (1 n)
  show ?case
  proof (cases "n < 10")
    case True
    then show ?thesis by (subst str_nat.simps) (simp add: is_digit_digit_char)
  next
    case False
    then show ?thesis using 1 by (subst str_nat.simps) (simp add: is_digit_digit_char)
  qed
qed

lemma str_nat_nonempty: "str_nat n \<noteq> []"
  by (subst str_nat.simps) simp

lemma str_nat_length_ge2: "10 \<le> n \<Longrightarrow> 2 \<le> length (str_nat n)"
  using str_nat_nonempty [of "n div 10"]
  by (subst str_nat.simps) (cases "str_nat (n div 10)"; simp)

lemma str_nat_inj: "str_nat m = str_nat n \<Longrightarrow> m = n"
proof (induction m arbitrary: n rule: str_nat.induct)
  case (1 m)
  show ?case
  proof (cases "m < 10")
    case True
    note m = True
    show ?thesis
    proof (cases "n < 10")
      case True
      then show ?thesis using m "1.prems" digit_char_inj [of m n]
        by (simp add: str_nat.simps [of m] str_nat.simps [of n])
    next
      case False
      then have "2 \<le> length (str_nat n)" by (simp add: str_nat_length_ge2)
      moreover have "length (str_nat m) = 1" using m by (simp add: str_nat.simps [of m])
      ultimately show ?thesis using "1.prems" by simp
    qed
  next
    case False
    note m = False
    show ?thesis
    proof (cases "n < 10")
      case True
      then have "length (str_nat n) = 1" by (simp add: str_nat.simps [of n])
      moreover have "2 \<le> length (str_nat m)" using m by (simp add: str_nat_length_ge2)
      ultimately show ?thesis using "1.prems" by simp
    next
      case False
      have "str_nat (m div 10) @ [digit_char (m mod 10)] = str_nat (n div 10) @ [digit_char (n mod 10)]"
        using "1.prems" m False by (simp add: str_nat.simps [of m] str_nat.simps [of n])
      then have a: "str_nat (m div 10) = str_nat (n div 10)"
        and b: "digit_char (m mod 10) = digit_char (n mod 10)" by simp_all
      have "m div 10 = n div 10" using "1.IH" [OF m a] .
      moreover have "m mod 10 = n mod 10" using digit_char_inj [OF _ _ b] by simp
      ultimately show ?thesis by (metis div_mult_mod_eq)
    qed
  qed
qed

lemma minus_not_digit: "\<not> is_digit CHR ''-''"
  by (simp add: is_digit_def)

lemma str_int_inj: "str_int i = str_int j \<Longrightarrow> i = j"
proof -
  assume e: "str_int i = str_int j"
  have hd_nat: "\<And>n. is_digit (hd (str_nat n))"
    using str_nat_digits str_nat_nonempty by (metis list.set_sel(1) list_all_iff)
  show ?thesis
  proof (cases "i < 0")
    case True
    note i = True
    show ?thesis
    proof (cases "j < 0")
      case True
      then have "str_nat (nat (- i)) = str_nat (nat (- j))" using e i by (simp add: str_int_def)
      then have "nat (- i) = nat (- j)" by (rule str_nat_inj)
      then show ?thesis using i True by simp
    next
      case False
      then have "hd (str_int j) = hd (str_nat (nat j))" by (simp add: str_int_def)
      moreover have "hd (str_int i) = CHR ''-''" using i by (simp add: str_int_def)
      ultimately show ?thesis using e hd_nat [of "nat j"] minus_not_digit by simp
    qed
  next
    case False
    note i = False
    show ?thesis
    proof (cases "j < 0")
      case True
      then have "hd (str_int j) = CHR ''-''" by (simp add: str_int_def)
      moreover have "hd (str_int i) = hd (str_nat (nat i))" using i by (simp add: str_int_def)
      ultimately show ?thesis using e hd_nat [of "nat i"] minus_not_digit by simp
    next
      case False
      then have "str_nat (nat i) = str_nat (nat j)" using e i by (simp add: str_int_def)
      then have "nat i = nat j" by (rule str_nat_inj)
      then show ?thesis using i False by simp
    qed
  qed
qed

lemma str_int_hd: "str_int i \<noteq> [] \<and> (is_digit (hd (str_int i)) \<or> hd (str_int i) = CHR ''-'')"
  using str_nat_digits [of "nat i"] str_nat_nonempty [of "nat i"]
  by (cases "str_nat (nat i)") (auto simp: str_int_def)

lemma seg_path_inj: "seg_path u j = seg_path u k \<Longrightarrow> j = k"
  by (simp add: seg_path_def str_int_inj)

lemma temp_path_inj: "temp_path u j = temp_path u k \<Longrightarrow> j = k"
  by (simp add: temp_path_def str_int_inj)

lemma seg_not_under_temp: "\<not> prefix (temp_dir u) (seg_path u k)"
proof
  assume "prefix (temp_dir u) (seg_path u k)"
  then have "prefix ''temp/'' (str_int k @ ''.txt'')"
    by (simp add: temp_dir_def seg_path_def)
  then obtain r where "str_int k @ ''.txt'' = ''temp/'' @ r" by (auto simp: prefix_def)
  then have "hd (str_int k) = CHR ''t''"
    using str_int_hd [of k] by (cases "str_int k") auto
  then show False using str_int_hd [of k] by (auto simp: is_digit_def)
qed

lemma seg_path_not_temp_path: "seg_path u j \<noteq> temp_path u k"
  using seg_not_under_temp [of u j] by (auto simp: temp_path_def prefix_def)

lemma temp_under_temp: "prefix (temp_dir u) (temp_path u k)"
  by (simp add: temp_path_def)

section \<open>Directories\<close>

lemma verify_known_tweets: "verify_dir_name ''known_tweets'' = Inr ''known_tweets/''"
  by code_simp

lemma verify_temp: "verify_dir_name ''temp'' = Inr ''temp/''"
  by code_simp

lemma verify_downloaded: "verify_dir_name ''downloaded images'' = Inr ''downloaded images/''"
  by code_simp

lemma verify_uid_example: "verify_dir_name ''2244994945'' = Inr ''2244994945/''"
  by code_simp

lemma create_folder_eq: "create_folder w d = w\<lparr>dirs := insert (''./'' @ d) (dirs w)\<rparr>"
  by (simp add: create_folder_def insert_absorb)

lemma assemble_log_dir:
  assumes "verify_dir_name uid = Inr u"
  shows "assemble_dir w [uid, ''known_tweets''] True
           = (Inr (''./'' @ u @ ''known_tweets/''), w\<lparr>dirs := log_dirs u \<union> dirs w\<rparr>)"
  using assms
  by (simp add: assemble_dir_def verify_known_tweets create_folder_eq log_dirs_def insert_commute)

lemma assemble_temp_dir:
  assumes "verify_dir_name uid = Inr u"
  shows "assemble_dir w [uid, ''known_tweets'', ''temp''] True
           = (Inr (temp_dir u), w\<lparr>dirs := insert (temp_dir u) (log_dirs u \<union> dirs w)\<rparr>)"
  using assms
  by (simp add: assemble_dir_def verify_known_tweets verify_temp create_folder_eq log_dirs_def
        temp_dir_def insert_commute)

lemma assemble_dir_bad:
  assumes "verify_dir_name uid = Inl e"
  shows "assemble_dir w (uid # ds) c = (Inl e, w)"
  using assms by (simp add: assemble_dir_def)

section \<open>Reading a file in reverse\<close>

text \<open>
  The chunked loop of \<open>readline_reverse\<close> yields what one pass over the lines of the
  file, from the last to the first, yields: each line decoded and stripped, the empty
  ones left out, up to the first line that fails to decode; whatever the buffer size.
\<close>

lemma split_on_nonempty [simp]: "split_on c xs \<noteq> []"
  by (induction xs) (auto split: list.splits)

lemma split_on_no_sep: "c \<notin> set xs \<Longrightarrow> split_on c xs = [xs]"
  by (induction xs) auto

lemma split_on_pieces: "p \<in> set (split_on c xs) \<Longrightarrow> c \<notin> set p"
  by (induction xs arbitrary: p) (auto split: if_splits list.splits)

lemma split_on_hd_no_sep: "c \<notin> set (hd (split_on c xs))"
  using split_on_pieces [of "hd (split_on c xs)" c xs] by simp

lemma split_on_append:
  "split_on c (xs @ ys)
     = butlast (split_on c xs) @ [last (split_on c xs) @ hd (split_on c ys)] @ tl (split_on c ys)"
proof (induction xs)
  case Nil
  then show ?case by simp
next
  case (Cons x xs)
  obtain a as where s: "split_on c xs = a # as" by (cases "split_on c xs") auto
  show ?case
  proof (cases "x = c")
    case True
    then show ?thesis using Cons s by simp
  next
    case False
    show ?thesis
    proof (cases as)
      case Nil
      then show ?thesis using Cons s False by simp
    next
      case (Cons b bs)
      then show ?thesis using Cons.IH s False by simp
    qed
  qed
qed

lemma split_on_append_piece:
  "c \<notin> set l \<Longrightarrow> split_on c (xs @ l) = butlast (split_on c xs) @ [last (split_on c xs) @ l]"
  by (simp add: split_on_append split_on_no_sep)

lemma rr_lines_eq:
  assumes "CHR 0x0A \<notin> set (lo_str leftover)"
  shows "rr_lines content b r off leftover
         = split_on CHR 0x0A (take (nat (min r b)) (drop (nat (int (length content) - off)) content) @ lo_str leftover)"
proof (cases "truthy leftover")
  case True
  then obtain l where l: "leftover = Some l" by (cases leftover) (auto simp: truthy_def)
  show ?thesis using assms True
    by (simp add: rr_lines_def Let_def l lo_str_def split_on_append_piece)
next
  case False
  then have "lo_str leftover = []" by (cases leftover) (auto simp: truthy_def lo_str_def)
  then show ?thesis using False by (simp add: rr_lines_def Let_def)
qed

lemma yield_loop_append:
  "yield_loop (xs @ ys)
     = (case snd (yield_loop xs) of
          Some e \<Rightarrow> yield_loop xs
        | None \<Rightarrow> (fst (yield_loop xs) @ fst (yield_loop ys), snd (yield_loop ys)))"
  by (induction xs) (auto simp: Let_def split: sum.splits option.splits)

lemma yield_loop_single:
  "yield_loop [h]
     = (case decode_and_strip (Some h) of
          Inl e \<Rightarrow> ([], Some e)
        | Inr v \<Rightarrow> (if truthy v then [the v] else [], None))"
  by (simp add: Let_def split: sum.splits)

lemma rr_loop_done: "r \<le> 0 \<Longrightarrow> rr_loop content blk r off leftover = ([], Inr leftover)"
  by (subst rr_loop.simps) simp

lemma rr_loop_spec:
  assumes "0 < r" "r \<le> int (length content)" "off = int (length content) - r"
    and "CHR 0x0A \<notin> set (lo_str leftover)"
  shows "rr_loop content blk r off leftover
         = (fst (yield_loop (rev (tl (split_on CHR 0x0A (take (nat r) content @ lo_str leftover))))),
            case snd (yield_loop (rev (tl (split_on CHR 0x0A (take (nat r) content @ lo_str leftover))))) of
              Some e \<Rightarrow> Inl e
            | None \<Rightarrow> Inr (Some (hd (split_on CHR 0x0A (take (nat r) content @ lo_str leftover)))))"
  using assms
proof (induction "nat r" arbitrary: r off leftover rule: less_induct)
  case less
  define b where "b = buff_size_of blk"
  have bpos: "0 < b" unfolding b_def by (rule buff_size_of_pos)
  define n where "n = int (length content)"
  define off' where "off' = min n (off + b)"
  define buffer where "buffer = take (nat (min r b)) (drop (nat (n - off')) content)"
  define lines where "lines = rr_lines content b r off' leftover"
  define y where "y = yield_loop (rev (tl lines))"
  have lines: "lines = split_on CHR 0x0A (buffer @ lo_str leftover)"
    unfolding lines_def buffer_def n_def by (rule rr_lines_eq [OF less.prems(4)])
  have step: "rr_loop content blk r off leftover
      = (case snd y of
           Some e \<Rightarrow> (fst y, Inl e)
         | None \<Rightarrow> (fst y @ fst (rr_loop content blk (r - b) off' (Some (hd lines))),
                    snd (rr_loop content blk (r - b) off' (Some (hd lines)))))"
    using less.prems(1)
    by (subst rr_loop.simps)
       (simp add: Let_def b_def [symmetric] n_def [symmetric] off'_def lines_def y_def
             split: option.splits)
  show ?case
  proof (cases "r \<le> b")
    case True
    have "off' = n" using True less.prems by (simp add: off'_def n_def)
    then have "buffer = take (nat r) content" using True by (simp add: buffer_def min_def)
    then have "lines = split_on CHR 0x0A (take (nat r) content @ lo_str leftover)"
      using lines by simp
    then show ?thesis using step True
      by (simp add: rr_loop_done y_def split: option.splits)
  next
    case False
    then have rb: "b < r" by simp
    have o: "off' = n - (r - b)" using rb less.prems bpos by (simp add: off'_def n_def)
    have buf: "buffer = take (nat b) (drop (nat (r - b)) content)"
      using rb o by (simp add: buffer_def min_def)
    have P: "take (nat r) content = take (nat (r - b)) content @ buffer"
    proof -
      have "nat r = nat (r - b) + nat b" using rb bpos by simp
      then show ?thesis by (simp add: buf take_add)
    qed
    have nl: "CHR 0x0A \<notin> set (lo_str (Some (hd lines)))"
      unfolding lines by (simp add: lo_str_def split_on_hd_no_sep)
    define S' where "S' = split_on CHR 0x0A (take (nat (r - b)) content @ hd lines)"
    have ih: "rr_loop content blk (r - b) off' (Some (hd lines))
         = (fst (yield_loop (rev (tl S'))),
            case snd (yield_loop (rev (tl S'))) of Some e \<Rightarrow> Inl e | None \<Rightarrow> Inr (Some (hd S')))"
      using less.hyps [of "r - b" off' "Some (hd lines)"] rb bpos less.prems(2) o nl
      by (simp add: lo_str_def n_def S'_def split: option.splits)
    define Sp where "Sp = split_on CHR 0x0A (take (nat (r - b)) content)"
    define S where "S = split_on CHR 0x0A (take (nat r) content @ lo_str leftover)"
    have whole: "S = butlast Sp @ [last Sp @ hd lines] @ tl lines"
      unfolding S_def P Sp_def lines by (simp add: split_on_append)
    have part: "S' = butlast Sp @ [last Sp @ hd lines]"
      unfolding S'_def Sp_def lines by (rule split_on_append_piece) (rule split_on_hd_no_sep)
    have t: "tl S = tl S' @ tl lines"
      unfolding whole part by (cases "butlast Sp") simp_all
    have h: "hd S = hd S'"
      unfolding whole part by (cases "butlast Sp") simp_all
    have r: "rev (tl S) = rev (tl lines) @ rev (tl S')" using t by simp
    have "rr_loop content blk r off leftover
          = (fst (yield_loop (rev (tl S))),
             case snd (yield_loop (rev (tl S))) of Some e \<Rightarrow> Inl e | None \<Rightarrow> Inr (Some (hd S)))"
      unfolding step ih r yield_loop_append h y_def [symmetric]
      by (simp split: option.splits)
    then show ?thesis unfolding S_def .
  qed
qed

lemma strip_front_none:
  assumes "\<forall>p\<in>set seqs. p \<noteq> [] \<longrightarrow> \<not> prefix p s"
  shows "strip_front seqs s = s"
proof -
  have "find (\<lambda>p. p \<noteq> [] \<and> prefix p s) seqs = None"
    using assms by (auto simp: find_None_iff)
  then show ?thesis by (subst strip_front.simps) simp
qed

lemma strip_Nil [simp]: "strip [] = []"
  by (simp add: strip_def strip_front_none)

lemma utf8_decode_Nil [simp]: "utf8_decode [] = Inr []"
  by (simp add: utf8_decode_def)

lemma decode_and_strip_Nil [simp]: "decode_and_strip (Some []) = Inr (Some [])"
  by (simp add: decode_and_strip_def)

lemma decode_and_strip_None [simp]: "decode_and_strip None = Inr None"
  by (simp add: decode_and_strip_def)

lemma readline_reverse_eq:
  "readline_reverse content blk = yield_loop (rev (split_on CHR 0x0A content))"
proof (cases "content = []")
  case True
  then show ?thesis
    by (simp add: readline_reverse_def rr_loop_done truthy_def)
next
  case False
  define S where "S = split_on CHR 0x0A content"
  define y where "y = yield_loop (rev (tl S))"
  have rr: "rr_loop content blk (int (length content)) 0 None
         = (fst y, case snd y of Some e \<Rightarrow> Inl e | None \<Rightarrow> Inr (Some (hd S)))"
    using rr_loop_spec [of "int (length content)" content 0 None blk] False
    by (simp add: lo_str_def S_def y_def split: option.splits)
  have "rev S = rev (tl S) @ [hd S]"
    unfolding S_def by (cases "split_on CHR 0x0A content") simp_all
  then have "yield_loop (rev S)
      = (case snd y of Some e \<Rightarrow> y | None \<Rightarrow> (fst y @ fst (yield_loop [hd S]), snd (yield_loop [hd S])))"
    by (simp only: yield_loop_append y_def)
  then show ?thesis
    unfolding S_def [symmetric] readline_reverse_def rr Let_def yield_loop_single
    by (cases y) (auto split: option.splits sum.splits)
qed

section \<open>Lines written and read back, and the loop of the load\<close>

lemma load_limit_range: "1 \<le> load_limit l" "load_limit l \<le> 10000"
  by (simp_all add: load_limit_def)

lemma load_limit_idem: "load_limit (load_limit l) = load_limit l"
  by (simp add: load_limit_def)

lemma load_limit_id: "1 \<le> l \<Longrightarrow> l \<le> 10000 \<Longrightarrow> load_limit l = l"
  by (simp add: load_limit_def)

lemma plain_not_nl: "\<not> plain_char CHR 0x0A" "\<not> plain_char CHR 0x0D"
  by (simp_all add: plain_char_def is_space_def)

lemma id_ok_no_nl: "id_ok t \<Longrightarrow> CHR 0x0A \<notin> set t"
  using plain_not_nl(1) by (auto simp: id_ok_def list_all_iff)

lemma id_ok_no_cr: "id_ok t \<Longrightarrow> CHR 0x0D \<notin> set t"
  using plain_not_nl(2) by (auto simp: id_ok_def list_all_iff)

lemma space_seqs_ends:
  "list_all (\<lambda>p. p \<noteq> [] \<and> \<not> plain_char (hd p) \<and> \<not> plain_char (last p)) space_seqs"
  by (simp add: space_seqs_def plain_char_def is_space_def)

lemma strip_id_ok: "id_ok t \<Longrightarrow> strip t = t"
proof -
  assume a: "id_ok t"
  then have t: "t \<noteq> []" "plain_char (hd t)" "plain_char (last t)"
    by (auto simp: id_ok_def list_all_iff)
  have e: "\<And>p. p \<in> set space_seqs \<Longrightarrow> p \<noteq> [] \<and> \<not> plain_char (hd p) \<and> \<not> plain_char (last p)"
    using space_seqs_ends by (simp add: list_all_iff)
  have 1: "strip_front space_seqs t = t"
  proof (rule strip_front_none, intro ballI impI notI)
    fix p assume p: "p \<in> set space_seqs" "p \<noteq> []" "prefix p t"
    then have "hd p = hd t" by (auto simp: prefix_def)
    then show False using e [OF p(1)] t by simp
  qed
  have 2: "strip_front (map rev space_seqs) (rev t) = rev t"
  proof (rule strip_front_none, intro ballI impI notI)
    fix q assume q: "q \<in> set (map rev space_seqs)" "q \<noteq> []" "prefix q (rev t)"
    then obtain p where p: "p \<in> set space_seqs" "q = rev p" by auto
    from q(3) obtain zs where "rev t = q @ zs" by (auto simp: prefix_def)
    then have "hd (rev t) = hd q" using q(2) by simp
    then have "last p = last t" using p(2) q(2) t(1) by (simp add: hd_rev)
    then show False using e [OF p(1)] t by simp
  qed
  show ?thesis by (simp add: strip_def 1 2)
qed

lemma utf8_ok_ascii: "\<forall>b\<in>set bs. b < 128 \<Longrightarrow> utf8_ok bs"
  by (induction bs) auto

lemma utf8_decode_ascii: "\<forall>c\<in>set s. (of_char c :: nat) < 128 \<Longrightarrow> utf8_decode s = Inr s"
  by (simp add: utf8_decode_def utf8_ok_ascii)

lemma decode_and_strip_id_ok:
  assumes "id_ok t"
  shows "decode_and_strip (Some t) = Inr (Some t)"
proof -
  have "\<forall>c\<in>set t. (of_char c :: nat) < 128"
    using assms by (auto simp: id_ok_def list_all_iff plain_char_def)
  then have "utf8_decode t = Inr t" by (rule utf8_decode_ascii)
  then show ?thesis by (simp add: decode_and_strip_def strip_id_ok [OF assms])
qed

lemma split_on_line: "c \<notin> set t \<Longrightarrow> split_on c (t @ c # rest) = t # split_on c rest"
  by (induction t) auto

lemma split_write_lines:
  "\<forall>t\<in>set ts. CHR 0x0A \<notin> set t \<Longrightarrow> split_on CHR 0x0A (write_lines ts) = ts @ [[]]"
  by (induction ts) (simp_all add: write_lines_def split_on_line)

lemma write_lines_append: "write_lines (xs @ ys) = write_lines xs @ write_lines ys"
  by (simp add: write_lines_def)

lemma filter_strip_ids:
  "\<forall>t\<in>set ts. id_ok t \<Longrightarrow> filter (\<lambda>l. l \<noteq> []) (map strip ts) = ts"
  by (induction ts) (auto simp: strip_id_ok id_ok_def)

lemma yield_loop_ids: "\<forall>t\<in>set ts. id_ok t \<Longrightarrow> yield_loop ts = (ts, None)"
  by (induction ts) (auto simp: decode_and_strip_id_ok truthy_def id_ok_def)

lemma readline_reverse_write_lines:
  assumes "\<forall>t\<in>set ts. id_ok t"
  shows "readline_reverse (write_lines ts) blk = (rev ts, None)"
proof -
  have "split_on CHR 0x0A (write_lines ts) = ts @ [[]]"
    using assms by (intro split_write_lines) (auto simp: id_ok_no_nl)
  moreover have "yield_loop (rev ts) = (rev ts, None)"
    using assms by (intro yield_loop_ids) simp
  ultimately show ?thesis by (simp add: readline_reverse_eq truthy_def)
qed

lemma universal_newlines_id: "CHR 0x0D \<notin> set s \<Longrightarrow> universal_newlines s = s"
  by (induction s rule: universal_newlines.induct) auto

lemma read_stripped_write_lines:
  assumes "\<forall>t\<in>set ts. id_ok t"
  shows "read_stripped_lines (write_lines ts) = Inr ts"
proof -
  have "CHR 0x0D \<notin> set (write_lines ts)"
    using assms by (auto simp: write_lines_def dest: id_ok_no_cr)
  then have "universal_newlines (write_lines ts) = write_lines ts" by (rule universal_newlines_id)
  moreover have "split_on CHR 0x0A (write_lines ts) = ts @ [[]]"
    using assms by (intro split_write_lines) (auto simp: id_ok_no_nl)
  moreover have "\<forall>c\<in>set (write_lines ts). (of_char c :: nat) < 128"
    using assms by (auto simp: write_lines_def id_ok_def list_all_iff plain_char_def)
  ultimately show ?thesis using filter_strip_ids [OF assms]
    by (simp add: read_stripped_lines_def utf8_decode_ascii)
qed

text \<open>
  The loop of the load over a generator that ends without an exception: it collects
  the lines in the order read, each at its first occurrence, up to the limit.
\<close>

lemma remdups_snoc: "remdups (xs @ [l]) = filter (\<lambda>x. x \<noteq> l) (remdups xs) @ [l]"
  by (induction xs) auto

lemma first_occ_Cons:
  "rev (remdups (rev (l # ls))) = l # filter (\<lambda>x. x \<noteq> l) (rev (remdups (rev ls)))"
  by (simp add: remdups_snoc rev_filter)

lemma load_loop_closed:
  assumes "1 \<le> limit" "distinct twts"
  shows "load_loop limit ls None twts (int (length twts))
         = Inr (twts @ take (nat limit - length twts) (filter (\<lambda>x. x \<notin> set twts) (rev (remdups (rev ls)))),
                int (length (twts @ take (nat limit - length twts)
                                     (filter (\<lambda>x. x \<notin> set twts) (rev (remdups (rev ls)))))))"
  using assms
proof (induction ls arbitrary: twts)
  case Nil
  then show ?case by simp
next
  case (Cons l ls)
  let ?fo = "rev (remdups (rev ls))"
  show ?case
  proof (cases "int (length twts) \<ge> limit")
    case True
    then have "nat limit - length twts = 0" by simp
    then show ?thesis using True Cons.prems by simp
  next
    case False
    show ?thesis
    proof (cases "l \<in> set twts")
      case True
      have "filter (\<lambda>x. x \<notin> set twts) (rev (remdups (rev (l # ls)))) = filter (\<lambda>x. x \<notin> set twts) ?fo"
        unfolding first_occ_Cons using True by (auto intro: filter_cong)
      then show ?thesis using False True Cons.IH [OF Cons.prems] by simp
    next
      case nin: False
      have d: "distinct (twts @ [l])" using Cons.prems nin by simp
      have e: "int (length twts) + 1 = int (length (twts @ [l]))" by simp
      have f: "filter (\<lambda>x. x \<notin> set twts) (rev (remdups (rev (l # ls))))
               = l # filter (\<lambda>x. x \<notin> set (twts @ [l])) ?fo"
        unfolding first_occ_Cons using nin by (auto intro: filter_cong)
      have n: "nat limit - length twts = Suc (nat limit - length (twts @ [l]))" using False by simp
      have "load_loop limit (l # ls) None twts (int (length twts))
            = load_loop limit ls None (twts @ [l]) (int (length (twts @ [l])))"
        using False nin e by (simp del: length_append)
      also have "\<dots> = Inr ((twts @ [l]) @ take (nat limit - length (twts @ [l])) (filter (\<lambda>x. x \<notin> set (twts @ [l])) ?fo),
                int (length ((twts @ [l]) @ take (nat limit - length (twts @ [l]))
                                     (filter (\<lambda>x. x \<notin> set (twts @ [l])) ?fo))))"
        by (rule Cons.IH [OF Cons.prems(1) d])
      finally show ?thesis unfolding f n by simp
    qed
  qed
qed

lemma load_loop_take:
  assumes "1 \<le> limit"
  shows "load_loop limit ls None [] 0
         = Inr (take (nat limit) (rev (remdups (rev ls))),
                int (min (nat limit) (length (remdups ls))))"
proof -
  have "length (rev (remdups (rev ls))) = length (remdups ls)"
    by (simp add: length_remdups_card_conv)
  then show ?thesis
    using load_loop_closed [OF assms, of "[]" ls] by (simp add: min.commute)
qed

lemma load_loop_first:
  assumes "1 \<le> limit" "distinct ls"
  shows "load_loop limit ls None [] 0 = Inr (take (nat limit) ls, int (min (nat limit) (length ls)))"
  using load_loop_take [OF assms(1), of ls] assms(2) by (simp add: distinct_remdups_id)

lemma load_loop_all:
  assumes "int (length (remdups ls)) < limit"
  shows "load_loop limit ls None [] 0 = Inr (rev (remdups (rev ls)), int (length (remdups ls)))"
proof -
  have "length (rev (remdups (rev ls))) = length (remdups ls)"
    by (simp add: length_remdups_card_conv)
  then show ?thesis using load_loop_take [of limit ls] assms by simp
qed

text \<open>One call of \<open>load_from_file\<close> with a segment number, for a valid user directory.\<close>

lemma load_segments_none:
  "fnum < 1 \<Longrightarrow> load_segments w uid limit fnum = (Inr [], w)"
  by (subst load_segments.simps) simp

lemma load_segments_bad_uid:
  "1 \<le> fnum \<Longrightarrow> verify_dir_name uid = Inl e \<Longrightarrow> load_segments w uid limit fnum = (Inl e, w)"
  by (subst load_segments.simps) (simp add: assemble_dir_bad)

lemma load_segments_missing:
  assumes "1 \<le> fnum" "verify_dir_name uid = Inr u" "files w (seg_path u fnum) = None"
  shows "load_segments w uid limit fnum
         = (if fnum > 1 then Inl RuntimeError else Inr [], w\<lparr>dirs := log_dirs u \<union> dirs w\<rparr>)"
  using assms
  by (subst load_segments.simps) (simp add: assemble_log_dir [OF assms(2)] seg_path_def)

lemma load_segments_present:
  assumes "1 \<le> fnum" "verify_dir_name uid = Inr u" "files w (seg_path u fnum) = Some content"
  shows "load_segments w uid limit fnum
         = (let g = readline_reverse content (st_blksize w);
                w1 = w\<lparr>dirs := log_dirs u \<union> dirs w\<rparr>
            in case load_loop (load_limit limit) (fst g) (snd g) [] 0 of
                 Inl e \<Rightarrow> (Inl e, w1)
               | Inr (twts, count) \<Rightarrow>
                   if load_limit limit > count
                   then extend_with twts (load_segments w1 uid (load_limit limit - count) (fnum - 1))
                   else (Inr twts, w1))"
  using assms load_limit_range [of limit]
  by (subst load_segments.simps)
     (simp add: assemble_log_dir [OF assms(2)] seg_path_def Let_def load_limit_def
           split: sum.splits prod.splits)

section \<open>Missing segment files\<close>

lemma key_twt_file_num:
  "key_prefix ''twt_db.file_num'' = [''twt_db'']" "key_last ''twt_db.file_num'' = ''file_num''"
  by code_simp+

lemma key_twt_line_count:
  "key_prefix ''twt_db.line_count'' = [''twt_db'']" "key_last ''twt_db.line_count'' = ''line_count''"
  by code_simp+

lemma key_temp_file_num:
  "key_prefix ''temp_db.file_num'' = [''temp_db'']" "key_last ''temp_db.file_num'' = ''file_num''"
  by code_simp+

lemma key_temp_db:
  "key_prefix ''temp_db'' = []" "key_last ''temp_db'' = ''temp_db''"
  by code_simp+

lemma default_if_nonexistent_loaded:
  "loaded_data w i \<noteq> None \<Longrightarrow> default_if_nonexistent w i = w"
  by (auto simp: default_if_nonexistent_def)

lemma default_if_nonexistent_fresh:
  "loaded_data w i = None \<Longrightarrow>
   default_if_nonexistent w i
     = w\<lparr>loaded_data := (loaded_data w)(i \<mapsto> default_vals),
         data_modified := (if i \<in> set (data_modified w) then data_modified w else data_modified w @ [i])\<rparr>"
  by (simp add: default_if_nonexistent_def set_as_modified_def)

lemma files_default_if_nonexistent [simp]: "files (default_if_nonexistent w i) = files w"
  by (rule default_if_nonexistent_frame) simp_all

lemma get_data_files: "get_data w i key index dflt = (r, w1) \<Longrightarrow> files w1 = files w"
  using get_data_frame [of files w i key index dflt] by simp

lemma load_from_file_some: "load_from_file w uid limit (Some n) = load_segments w uid limit n"
  by (simp add: load_from_file_def)


lemma load_segments_limit:
  "load_segments w uid (load_limit limit) fnum = load_segments w uid limit fnum"
  by (subst load_segments.simps, subst (2) load_segments.simps)
     (simp add: load_limit_def)

lemma fst_extend_with:
  "fst (extend_with twts r) = (case fst r of Inl e \<Rightarrow> Inl e | Inr older \<Rightarrow> Inr (twts @ older))"
  by (simp add: extend_with_def split: sum.splits)

lemma segment_ids_frame:
  "st_blksize w1 = st_blksize w \<Longrightarrow> segment_ids w1 c = segment_ids w c"
  by (simp add: segment_ids_def)

text \<open>
  The walk of \<open>load_from_file\<close> from a segment down to a missing one: the segments
  \<open>cs\<close> above segment \<open>m\<close> are present, from the highest down, they decode, and their
  numbers of distinct IDs add up to less than the limit.
\<close>

lemma load_segments_walk:
  assumes "verify_dir_name uid = Inr u" "1 \<le> m" "files w (seg_path u m) = None"
    and "\<forall>i<length cs. files w (seg_path u (m + int (length cs) - int i)) = Some (cs ! i)"
    and "\<forall>c\<in>set cs. snd (readline_reverse c (st_blksize w)) = None"
    and "sum_list (map (\<lambda>c. int (length (segment_ids w c))) cs) < L" "L \<le> 10000"
  shows "fst (load_segments w uid L (m + int (length cs)))
         = (if m = 1 then Inr (concat (map (segment_ids w) cs)) else Inl RuntimeError)"
  using assms(3-)
proof (induction cs arbitrary: w L)
  case Nil
  then show ?case
    using load_segments_missing [OF assms(2) assms(1), of w L] assms(2) by auto
next
  case (Cons c rest)
  define fnum where "fnum = m + int (length (c # rest))"
  define g where "g = readline_reverse c (st_blksize w)"
  define w1 where "w1 = w\<lparr>dirs := log_dirs u \<union> dirs w\<rparr>"
  define n where "n = int (length (segment_ids w c))"
  have f1: "1 \<le> fnum" "fnum - 1 = m + int (length rest)" using assms(2) by (simp_all add: fnum_def)
  have p: "files w (seg_path u fnum) = Some c"
    using Cons.prems(2) [rule_format, of 0] by (simp add: fnum_def)
  have s: "snd g = None" using Cons.prems(3) by (simp add: g_def)
  have sum: "n + sum_list (map (\<lambda>c. int (length (segment_ids w c))) rest) < L"
    using Cons.prems(4) by (simp add: n_def)
  have nn: "0 \<le> sum_list (map (\<lambda>c. int (length (segment_ids w c))) rest)"
    by (rule sum_list_nonneg) auto
  have L: "1 \<le> L" "n < L" "load_limit L = L"
    using sum nn Cons.prems(5) by (auto simp: n_def load_limit_def)
  have len: "int (length (remdups (fst g))) = n"
    by (simp add: n_def segment_ids_def g_def length_remdups_card_conv)
  have ll: "load_loop L (fst g) (snd g) [] 0 = Inr (segment_ids w c, n)"
    using load_loop_all [of "fst g" L] L(2) len s by (simp add: segment_ids_def g_def)
  have step: "load_segments w uid L fnum
              = extend_with (segment_ids w c) (load_segments w1 uid (L - n) (fnum - 1))"
    using load_segments_present [OF f1(1) assms(1) p, of L] L
    by (simp add: Let_def g_def [symmetric] w1_def [symmetric] ll)
  have fr: "files w1 = files w" "st_blksize w1 = st_blksize w" by (simp_all add: w1_def)
  have ids: "segment_ids w1 = segment_ids w"
    by (rule ext, rule segment_ids_frame) (rule fr(2))
  have ih: "fst (load_segments w1 uid (L - n) (m + int (length rest)))
         = (if m = 1 then Inr (concat (map (segment_ids w1) rest)) else Inl RuntimeError)"
  proof (rule Cons.IH)
    show "files w1 (seg_path u m) = None" using Cons.prems(1) fr by simp
    show "\<forall>i<length rest. files w1 (seg_path u (m + int (length rest) - int i)) = Some (rest ! i)"
    proof (intro allI impI)
      fix i assume i: "i < length rest"
      have e: "m + int (length (c # rest)) - int (Suc i) = m + int (length rest) - int i" by simp
      have "files w (seg_path u (m + int (length (c # rest)) - int (Suc i))) = Some ((c # rest) ! Suc i)"
        using Cons.prems(2) [rule_format, of "Suc i"] i by simp
      then show "files w1 (seg_path u (m + int (length rest) - int i)) = Some (rest ! i)"
        unfolding e fr by simp
    qed
    show "\<forall>c\<in>set rest. snd (readline_reverse c (st_blksize w1)) = None"
      using Cons.prems(3) fr by simp
    show "sum_list (map (\<lambda>c. int (length (segment_ids w1 c))) rest) < L - n"
      using sum by (simp add: ids)
    show "L - n \<le> 10000" using Cons.prems(5) by (simp add: n_def)
  qed
  show ?case
    unfolding fnum_def [symmetric] step fst_extend_with f1(2) ih
    by (simp add: ids)
qed

text \<open>
  Claim C8, for a user ID that \<open>verify_dir_name\<close> accepts. The call addresses segment
  \<open>m + length cs\<close>; the files of the segments above \<open>m\<close> are there (\<open>cs\<close>, from the
  highest down), they decode, and their numbers of distinct IDs add up to less than the
  limit, so that the walk reaches segment \<open>m\<close>, whose file is missing. Then the call returns
  the IDs collected from the segments above, each segment from its last line to its
  first, when \<open>m\<close> is 1 (the empty list when segment 1 itself is addressed), and raises
  \<open>RuntimeError\<close> (the record "may require repairs") when \<open>m\<close> is above 1, at any depth.
  A call without a segment number is the call on the segment number of the metadata.
\<close>

theorem missing_segment:
  assumes "verify_dir_name uid = Inr u" "1 \<le> m" "files w (seg_path u m) = None"
    and "\<forall>i<length cs. files w (seg_path u (m + int (length cs) - int i)) = Some (cs ! i)"
    and "\<forall>c\<in>set cs. snd (readline_reverse c (st_blksize w)) = None"
    and "sum_list (map (\<lambda>c. int (length (segment_ids w c))) cs) < load_limit limit"
  shows
   "fst (load_from_file w uid limit (Some (m + int (length cs))))
      = (if m = 1 then Inr (concat (map (segment_ids w) cs)) else Inl RuntimeError) \<and>
    (\<forall>n w1. get_data w (Usr uid) ''twt_db.file_num'' None PNone = (Inr (PInt n), w1) \<longrightarrow>
       files w1 = files w \<and> st_blksize w1 = st_blksize w \<and>
       load_from_file w uid limit None = load_from_file w1 uid limit (Some n))"
proof -
  have a: "fst (load_from_file w uid limit (Some (m + int (length cs))))
      = (if m = 1 then Inr (concat (map (segment_ids w) cs)) else Inl RuntimeError)"
    using load_segments_walk [OF assms, of ] load_limit_range(2) [of limit]
    by (simp add: load_from_file_some load_segments_limit)
  have d: "files w1 = files w \<and> st_blksize w1 = st_blksize w \<and>
           load_from_file w uid limit None = load_from_file w1 uid limit (Some n)"
    if "get_data w (Usr uid) ''twt_db.file_num'' None PNone = (Inr (PInt n), w1)" for n w1
    using that get_data_files [OF that] get_data_frame [of st_blksize w "Usr uid" "''twt_db.file_num''" None PNone]
    by (simp add: load_from_file_def)
  show ?thesis using a d by blast
qed

lemma id_ok_digits: "id_ok ''5''" "id_ok ''6''" "id_ok ''7''"
  by (simp_all add: id_ok_def plain_char_def is_space_def)

lemma get_file_num_init:
  "get_data init_world (Usr uid) ''twt_db.file_num'' None PNone
     = (Inr (PInt 1), init_world\<lparr>loaded_data := [Usr uid \<mapsto> default_vals], data_modified := [Usr uid]\<rparr>)"
proof -
  have l: "loaded_data init_world (Usr uid) = None" "data_modified init_world = []"
    "loaded_data init_world = Map.empty"
    by (simp_all add: init_world_def)
  have "dw_get default_vals ''twt_db.file_num'' PNone = Inr (PInt 1)"
    by (simp add: dw_get_def key_twt_file_num default_vals_def py_getitem_def)
  then show ?thesis
    using l by (simp add: get_data_def default_if_nonexistent_fresh [OF l(1)] Let_def)
qed

lemma segments_world_files:
  "files (segments_world k) (seg_path ''2244994945/'' (k + 1)) = Some (write_lines [''7''])"
  "files (segments_world k) (seg_path ''2244994945/'' k) = Some (write_lines [''5'', ''6''])"
  "files (segments_world k) (seg_path ''2244994945/'' (k - 1)) = None"
  using seg_path_inj [of "''2244994945/''" "k + 1" k] seg_path_inj [of "''2244994945/''" "k - 1" k]
    seg_path_inj [of "''2244994945/''" "k - 1" "k + 1"]
  by (auto simp: segments_world_def)

lemma segments_world_ids:
  "readline_reverse (write_lines [''7'']) blk = ([''7''], None)"
  "readline_reverse (write_lines [''5'', ''6'']) blk = ([''6'', ''5''], None)"
  "segment_ids w (write_lines [''7'']) = [''7'']"
  "segment_ids w (write_lines [''5'', ''6'']) = [''6'', ''5'']"
proof -
  show a: "\<And>blk. readline_reverse (write_lines [''7'']) blk = ([''7''], None)"
    using readline_reverse_write_lines [of "[''7'']"] id_ok_digits by simp
  show b: "\<And>blk. readline_reverse (write_lines [''5'', ''6'']) blk = ([''6'', ''5''], None)"
    using readline_reverse_write_lines [of "[''5'', ''6'']"] id_ok_digits by simp
  show "segment_ids w (write_lines [''7'']) = [''7'']"
    by (simp add: segment_ids_def a)
  show "segment_ids w (write_lines [''5'', ''6'']) = [''6'', ''5'']"
    by (simp add: segment_ids_def b)
qed

theorem missing_segment_witness:
  "verify_dir_name ''2244994945'' = Inr ''2244994945/'' \<and>
   fst (load_from_file init_world ''2244994945'' 3000 (Some 1)) = Inr [] \<and>
   fst (load_from_file init_world ''2244994945'' 3000 None) = Inr [] \<and>
   fst (load_from_file init_world ''2244994945'' 3000 (Some 2)) = Inl RuntimeError \<and>
   fst (load_from_file (segments_world 2) ''2244994945'' 3000 (Some 3)) = Inr [''7'', ''6'', ''5''] \<and>
   fst (load_from_file (segments_world 3) ''2244994945'' 3000 (Some 4)) = Inl RuntimeError"
proof -
  note v = verify_uid_example
  have ll: "load_limit 3000 = 3000" by (simp add: load_limit_def)
  have none: "\<And>k. files init_world (seg_path ''2244994945/'' k) = None"
    by (simp add: init_world_def)
  have a: "fst (load_from_file init_world ''2244994945'' 3000 (Some 1)) = Inr []"
    using missing_segment [OF v, of 1 init_world "[]" 3000] none by (simp add: ll)
  have b: "fst (load_from_file init_world ''2244994945'' 3000 (Some 2)) = Inl RuntimeError"
    using missing_segment [OF v, of 2 init_world "[]" 3000] none by (simp add: ll)
  define w1 where "w1 = init_world\<lparr>loaded_data := [Usr ''2244994945'' \<mapsto> default_vals],
                                  data_modified := [Usr ''2244994945'']\<rparr>"
  have none1: "files w1 (seg_path ''2244994945/'' 1) = None"
    by (simp add: w1_def init_world_def)
  have "load_from_file init_world ''2244994945'' 3000 None = load_from_file w1 ''2244994945'' 3000 (Some 1)"
    using missing_segment [OF v, of 1 init_world "[]" 3000] none get_file_num_init [of "''2244994945''"]
    unfolding w1_def by (simp add: ll)
  moreover have "fst (load_from_file w1 ''2244994945'' 3000 (Some 1)) = Inr []"
    using missing_segment [OF v, of 1 w1 "[]" 3000] none1 by (simp add: ll)
  ultimately have c: "fst (load_from_file init_world ''2244994945'' 3000 None) = Inr []" by simp
  let ?cs = "[write_lines [''7''], write_lines [''5'', ''6'']]"
  have gen: "fst (load_from_file (segments_world (m + 1)) ''2244994945'' 3000 (Some (m + int (length ?cs))))
             = (if m = 1 then Inr (concat (map (segment_ids (segments_world (m + 1))) ?cs))
                else Inl RuntimeError)"
    if m: "1 \<le> m" for m
  proof -
    have miss: "files (segments_world (m + 1)) (seg_path ''2244994945/'' m) = None"
      using segments_world_files(3) [of "m + 1"] by simp
    have pres: "\<forall>i<length ?cs. files (segments_world (m + 1))
                   (seg_path ''2244994945/'' (m + int (length ?cs) - int i)) = Some (?cs ! i)"
    proof (intro allI impI)
      fix i assume "i < length ?cs"
      then consider "i = 0" | "i = 1" by (auto simp: less_Suc_eq)
      then show "files (segments_world (m + 1)) (seg_path ''2244994945/'' (m + int (length ?cs) - int i))
                  = Some (?cs ! i)"
      proof cases
        case 1
        have e: "m + int (length ?cs) - int i = m + 1 + 1" using 1 by simp
        show ?thesis unfolding e using segments_world_files(1) [of "m + 1"] 1 by simp
      next
        case 2
        have e: "m + int (length ?cs) - int i = m + 1" using 2 by simp
        show ?thesis unfolding e using segments_world_files(2) [of "m + 1"] 2 by simp
      qed
    qed
    have dec: "\<forall>c\<in>set ?cs. snd (readline_reverse c (st_blksize (segments_world (m + 1)))) = None"
      by (simp add: segments_world_ids)
    have short: "sum_list (map (\<lambda>c. int (length (segment_ids (segments_world (m + 1)) c))) ?cs)
                 < load_limit 3000"
      by (simp add: segments_world_ids ll)
    from missing_segment [OF v m miss pres dec short] show ?thesis by blast
  qed
  have d: "fst (load_from_file (segments_world 2) ''2244994945'' 3000 (Some 3)) = Inr [''7'', ''6'', ''5'']"
    using gen [of 1] by (simp add: segments_world_ids)
  have e: "fst (load_from_file (segments_world 3) ''2244994945'' 3000 (Some 4)) = Inl RuntimeError"
    using gen [of 2] by simp
  show ?thesis using v a b c d e by simp
qed

text \<open>
  The claim as stated fails for a user ID that is not a directory name for
  \<open>verify_dir_name\<close>, such as the two-character ID 12: \<open>load_from_file\<close> assembles the
  directory before it looks for the file, and raises \<open>ValueError\<close> although only
  segment 1 is missing.
\<close>

theorem missing_segment_counterexample:
  "files init_world ''./12/known_tweets/1.txt'' = None \<and>
   fst (load_from_file init_world ''12'' 3000 (Some 1)) = Inl ValueError \<and>
   fst (load_from_file init_world ''12'' 3000 None) = Inl ValueError"
proof -
  have v: "verify_dir_name ''12'' = Inl ValueError" by code_simp
  have a: "load_segments w ''12'' 3000 1 = (Inl ValueError, w)" for w
    by (rule load_segments_bad_uid [OF _ v]) simp
  show ?thesis
    by (simp add: load_from_file_def a get_file_num_init) (simp add: init_world_def)
qed

section \<open>The metadata of the identifier log\<close>

lemma meta_lookupD:
  "meta_lookup w uid k = Some v \<Longrightarrow> \<exists>d. loaded_data w (Usr uid) = Some (PDict d) \<and> map_of d k = Some v"
  by (auto simp: meta_lookup_def split: option.splits pyval.splits)

lemma get_data_loaded:
  "loaded_data w i = Some d \<Longrightarrow>
   get_data w i key index dflt
     = ((case index of None \<Rightarrow> dw_get d key dflt | Some ix \<Rightarrow> dw_get_in_list d key ix dflt), w)"
  by (simp add: get_data_def default_if_nonexistent_loaded split: option.splits)

lemma dw_set_two_level:
  assumes "map_of d a = Some sub" "key_prefix key = [a]"
  shows "dw_set (PDict d) key val set_func
           = (fst (set_in_dict (key_last key) val set_func sub),
              PDict (AList.update a (snd (set_in_dict (key_last key) val set_func sub)) d))"
    and "dw_set_in_list (PDict d) key ix val set_func
           = (fst (set_in_list_in_dict (key_last key) ix val set_func sub),
              PDict (AList.update a (snd (set_in_list_in_dict (key_last key) ix val set_func sub)) d))"
  using assms by (simp_all add: dw_set_def dw_set_in_list_def Let_def)

lemma dw_set_new_level:
  assumes "map_of d a = None" "key_prefix key = [a]"
  shows "dw_set (PDict d) key val set_func
           = (fst (set_in_dict (key_last key) val set_func (PDict [])),
              PDict (AList.update a (snd (set_in_dict (key_last key) val set_func (PDict []))) d))"
  using assms by (simp add: dw_set_def Let_def)

lemma set_data_loaded:
  assumes "loaded_data w i = Some d"
  shows "set_data w i key val index set_func
     = (let r = (case index of
                   Some ix \<Rightarrow> dw_set_in_list d key ix val set_func
                 | None \<Rightarrow> dw_set d key val set_func);
            w2 = w\<lparr>loaded_data := (loaded_data w)(i \<mapsto> snd r)\<rparr>
        in case fst r of
             Inl e \<Rightarrow> (Inl e, w2)
           | Inr dset \<Rightarrow> (Inr dset, if dset then set_as_modified w2 i else w2))"
  using assms by (simp add: set_data_def default_if_nonexistent_loaded)

lemma set_data_two_level:
  assumes "loaded_data w i = Some (PDict d)" "map_of d a = Some sub" "key_prefix key = [a]"
  shows "set_data w i key val index set_func
     = (let r = (case index of
                   Some ix \<Rightarrow> set_in_list_in_dict (key_last key) ix val set_func sub
                 | None \<Rightarrow> set_in_dict (key_last key) val set_func sub);
            w2 = w\<lparr>loaded_data := (loaded_data w)(i \<mapsto> PDict (AList.update a (snd r) d))\<rparr>
        in case fst r of
             Inl e \<Rightarrow> (Inl e, w2)
           | Inr dset \<Rightarrow> (Inr dset, if dset then set_as_modified w2 i else w2))"
  by (cases index)
     (simp_all add: set_data_loaded [OF assms(1)] dw_set_two_level [OF assms(2,3)] Let_def
        split: sum.splits)

lemma set_data_new_level:
  assumes "loaded_data w i = Some (PDict d)" "map_of d a = None" "key_prefix key = [a]"
  shows "set_data w i key val None set_func
     = (let r = set_in_dict (key_last key) val set_func (PDict []);
            w2 = w\<lparr>loaded_data := (loaded_data w)(i \<mapsto> PDict (AList.update a (snd r) d))\<rparr>
        in case fst r of
             Inl e \<Rightarrow> (Inl e, w2)
           | Inr dset \<Rightarrow> (Inr dset, if dset then set_as_modified w2 i else w2))"
  by (simp add: set_data_loaded [OF assms(1)] dw_set_new_level [OF assms(2,3)] Let_def
        split: sum.splits)

lemma meta_lookup_upd:
  "meta_lookup (w\<lparr>loaded_data := (loaded_data w)(Usr uid \<mapsto> PDict (AList.update a v d))\<rparr>) uid k
     = (if k = a then Some v else map_of d k)"
  by (simp add: meta_lookup_def update_conv')

lemma meta_lookup_set_as_modified [simp]:
  "meta_lookup (set_as_modified w i) uid k = meta_lookup w uid k"
  by (simp add: meta_lookup_def set_as_modified_def)

lemma log_meta_get_file_num:
  assumes "log_meta w uid fnum counts"
  shows "get_data w (Usr uid) ''twt_db.file_num'' None dflt = (Inr (PInt fnum), w)"
proof -
  obtain t where t: "meta_lookup w uid ''twt_db'' = Some (PDict t)"
    "map_of t ''file_num'' = Some (PInt fnum)"
    using assms by (auto simp: log_meta_def)
  obtain d where d: "loaded_data w (Usr uid) = Some (PDict d)" "map_of d ''twt_db'' = Some (PDict t)"
    using meta_lookupD [OF t(1)] by auto
  show ?thesis
    using d t(2)
    by (simp add: get_data_loaded [OF d(1)] dw_get_def key_twt_file_num py_getitem_def)
qed

lemma log_meta_get_line_count:
  assumes "log_meta w uid fnum counts" "0 \<le> ix"
  shows "get_data w (Usr uid) ''twt_db.line_count'' (Some ix) (PInt 0)
          = (Inr (PInt (if ix < int (length counts) then counts ! nat ix else 0)), w)"
proof -
  obtain t where t: "meta_lookup w uid ''twt_db'' = Some (PDict t)"
    "map_of t ''line_count'' = Some (PList (map PInt counts))"
    using assms by (auto simp: log_meta_def)
  obtain d where d: "loaded_data w (Usr uid) = Some (PDict d)" "map_of d ''twt_db'' = Some (PDict t)"
    using meta_lookupD [OF t(1)] by auto
  show ?thesis
    using d t(2) assms(2)
    by (simp add: get_data_loaded [OF d(1)] dw_get_in_list_def key_twt_line_count py_getitem_def
          py_index_def)
qed

lemma meta_step_frame:
  assumes "files w' = files w" "dirs w' = dirs w" "st_blksize w' = st_blksize w"
    "\<And>k. k \<noteq> a \<Longrightarrow> meta_lookup w' uid k = meta_lookup w uid k"
  shows "meta_step w w' uid a"
  using assms by (simp add: meta_step_def)

lemma log_meta_set_line_count:
  assumes "log_meta w uid fnum counts" "0 \<le> ix" "ix \<le> int (length counts)" "0 \<le> c"
    and "ix = int (length counts) \<longrightarrow> 0 < c"
  shows "\<exists>b w'. set_data w (Usr uid) ''twt_db.line_count'' PNone (Some ix)
                  (Some (\<lambda>x. if x = PNone then Inr (PInt c) else py_add x c)) = (Inr b, w') \<and>
            log_meta w' uid fnum (if ix < int (length counts)
                                  then counts[nat ix := counts ! nat ix + c] else counts @ [c]) \<and>
            meta_step w w' uid ''twt_db''"
proof -
  obtain t where t: "meta_lookup w uid ''twt_db'' = Some (PDict t)"
    "map_of t ''file_num'' = Some (PInt fnum)"
    "map_of t ''line_count'' = Some (PList (map PInt counts))"
    using assms(1) by (auto simp: log_meta_def)
  obtain d where d: "loaded_data w (Usr uid) = Some (PDict d)" "map_of d ''twt_db'' = Some (PDict t)"
    using meta_lookupD [OF t(1)] by auto
  define f where "f = (\<lambda>x. if x = PNone then Inr (PInt c) else py_add x c)"
  define r where "r = set_in_list_in_dict ''line_count'' ix PNone (Some f) (PDict t)"
  define counts' where "counts' = (if ix < int (length counts)
                                  then counts[nat ix := counts ! nat ix + c] else counts @ [c])"
  have r: "\<exists>b. fst r = Inr b \<and> (\<exists>t'. snd r = PDict t' \<and> map_of t' ''file_num'' = Some (PInt fnum) \<and>
              map_of t' ''line_count'' = Some (PList (map PInt counts')))"
  proof (cases "ix < int (length counts)")
    case True
    then have i: "nat ix < length counts" using assms(2) by simp
    show ?thesis
    proof (cases "c = 0")
      case True
      then show ?thesis using t i assms(2) \<open>ix < int (length counts)\<close>
        by (auto simp: r_def set_in_list_in_dict_def py_contains_def py_getitem_def py_index_def
              f_def py_add_def Let_def counts'_def list_update_same_conv)
    next
      case False
      then show ?thesis using t i assms(2) \<open>ix < int (length counts)\<close>
        by (auto simp: r_def set_in_list_in_dict_def py_contains_def py_getitem_def py_index_def
              f_def py_add_def Let_def counts'_def py_setitem_def update_conv' map_update)
    qed
  next
    case False
    then have e: "ix = int (length counts)" using assms(3) by simp
    then have c: "0 < c" using assms(5) by simp
    show ?thesis using t e c
      by (auto simp: r_def set_in_list_in_dict_def py_contains_def py_getitem_def py_index_def
            f_def Let_def counts'_def py_setitem_def update_conv')
  qed
  then obtain b t' where b: "fst r = Inr b" and t': "snd r = PDict t'"
    "map_of t' ''file_num'' = Some (PInt fnum)"
    "map_of t' ''line_count'' = Some (PList (map PInt counts'))" by blast
  define w2 where "w2 = w\<lparr>loaded_data := (loaded_data w)(Usr uid \<mapsto> PDict (AList.update ''twt_db'' (snd r) d))\<rparr>"
  define w' where "w' = (if b then set_as_modified w2 (Usr uid) else w2)"
  have s: "set_data w (Usr uid) ''twt_db.line_count'' PNone (Some ix) (Some f) = (Inr b, w')"
    using set_data_two_level [OF d key_twt_line_count(1), of PNone "Some ix" "Some f"] b
    by (simp add: key_twt_line_count r_def [symmetric] Let_def w2_def [symmetric] w'_def)
  have ml: "\<And>k. meta_lookup w' uid k = (if k = ''twt_db'' then Some (snd r) else map_of d k)"
    by (simp add: w'_def w2_def meta_lookup_upd)
  have "\<And>k. meta_lookup w uid k = map_of d k" using d by (simp add: meta_lookup_def)
  then have fr: "meta_step w w' uid ''twt_db''"
    by (intro meta_step_frame) (simp_all add: ml, simp_all add: w'_def w2_def set_as_modified_def)
  have "log_meta w' uid fnum counts'"
    using t' by (simp add: log_meta_def ml)
  then show ?thesis using s fr unfolding f_def counts'_def by blast
qed

lemma log_meta_set_file_num:
  assumes "log_meta w uid fnum counts"
  shows "\<exists>b w'. set_data w (Usr uid) ''twt_db.file_num'' (PInt v) None None = (Inr b, w') \<and>
            log_meta w' uid v counts \<and> meta_step w w' uid ''twt_db''"
proof -
  obtain t where t: "meta_lookup w uid ''twt_db'' = Some (PDict t)"
    "map_of t ''file_num'' = Some (PInt fnum)"
    "map_of t ''line_count'' = Some (PList (map PInt counts))"
    using assms(1) by (auto simp: log_meta_def)
  obtain d where d: "loaded_data w (Usr uid) = Some (PDict d)" "map_of d ''twt_db'' = Some (PDict t)"
    using meta_lookupD [OF t(1)] by auto
  define r where "r = set_in_dict ''file_num'' (PInt v) None (PDict t)"
  have r: "\<exists>b. fst r = Inr b \<and> (\<exists>t'. snd r = PDict t' \<and> map_of t' ''file_num'' = Some (PInt v) \<and>
              map_of t' ''line_count'' = Some (PList (map PInt counts)))"
    using t
    by (cases "v = fnum")
       (auto simp: r_def set_in_dict_def py_contains_def py_getitem_def py_setitem_def update_conv')
  then obtain b t' where b: "fst r = Inr b" and t': "snd r = PDict t'"
    "map_of t' ''file_num'' = Some (PInt v)"
    "map_of t' ''line_count'' = Some (PList (map PInt counts))" by blast
  define w2 where "w2 = w\<lparr>loaded_data := (loaded_data w)(Usr uid \<mapsto> PDict (AList.update ''twt_db'' (snd r) d))\<rparr>"
  define w' where "w' = (if b then set_as_modified w2 (Usr uid) else w2)"
  have s: "set_data w (Usr uid) ''twt_db.file_num'' (PInt v) None None = (Inr b, w')"
    using set_data_two_level [OF d key_twt_file_num(1), of "PInt v" None None] b
    by (simp add: key_twt_file_num r_def [symmetric] Let_def w2_def [symmetric] w'_def)
  have ml: "\<And>k. meta_lookup w' uid k = (if k = ''twt_db'' then Some (snd r) else map_of d k)"
    by (simp add: w'_def w2_def meta_lookup_upd)
  have "\<And>k. meta_lookup w uid k = map_of d k" using d by (simp add: meta_lookup_def)
  then have fr: "meta_step w w' uid ''twt_db''"
    by (intro meta_step_frame) (simp_all add: ml, simp_all add: w'_def w2_def set_as_modified_def)
  have "log_meta w' uid v counts"
    using t' by (simp add: log_meta_def ml)
  then show ?thesis using s fr by blast
qed

section \<open>Appending to the log\<close>

lemma seg_path_alt: "seg_path u k = log_dir u @ str_int k @ ''.txt''"
  by (simp add: seg_path_def log_dir_def)

lemma temp_path_alt: "temp_path u k = temp_dir u @ str_int k @ ''.txt''"
  by (simp add: temp_path_def)

lemma assemble_log_dir':
  assumes "verify_dir_name uid = Inr u"
  shows "assemble_dir w [uid, ''known_tweets''] True = (Inr (log_dir u), w\<lparr>dirs := log_dirs u \<union> dirs w\<rparr>)"
  using assemble_log_dir [OF assms] by (simp add: log_dir_def)

lemma chunks_Nil [simp]: "chunks n [] = []"
  by (subst chunks.simps) simp

lemma chunks_step: "0 < n \<Longrightarrow> xs \<noteq> [] \<Longrightarrow> chunks n xs = take n xs # chunks n (drop n xs)"
  by (subst chunks.simps) simp

lemma chunks_short: "0 < n \<Longrightarrow> xs \<noteq> [] \<Longrightarrow> length xs \<le> n \<Longrightarrow> chunks n xs = [xs]"
  by (simp add: chunks_step)

lemma meta_lookup_other_fields [simp]:
  "meta_lookup (w\<lparr>dirs := x\<rparr>) uid k = meta_lookup w uid k"
  "meta_lookup (w\<lparr>files := y\<rparr>) uid k = meta_lookup w uid k"
  by (simp_all add: meta_lookup_def)

lemma log_meta_other_fields [simp]:
  "log_meta (w\<lparr>dirs := x\<rparr>) uid f c = log_meta w uid f c"
  "log_meta (w\<lparr>files := y\<rparr>) uid f c = log_meta w uid f c"
  by (simp_all add: log_meta_def)

lemma log_state_dirs [simp]: "log_state (w\<lparr>dirs := x\<rparr>) uid u f segs = log_state w uid u f segs"
  by (simp add: log_state_def)

lemma same_outside_log_trans:
  "same_outside_log w w1 uid u \<Longrightarrow> same_outside_log w1 w2 uid u \<Longrightarrow> same_outside_log w w2 uid u"
  by (auto simp: same_outside_log_def)

lemma save_step_empty:
  assumes "log_meta w uid fnum counts"
  shows "save_step w uid [] limit None None = (Inr None, w)"
  using log_meta_get_file_num [OF assms]
  by (simp add: save_step_def)

lemma save_step_head:
  assumes v: "verify_dir_name uid = Inr u"
    and st: "log_state w uid u (int (length fs) + 1) (segs_of fs h)"
    and lim: "1 \<le> limit" and h: "int (length h) \<le> limit" and tw: "twts \<noteq> []"
    and fa: "fa = None \<or> fa = Some (PInt (int (length fs) + 1))"
    and ta: "ta = None \<or> ta = Some (int (length twts))"
  shows "\<exists>w'. same_outside_log w w' uid u \<and>
          (if int (length h) + int (length twts) > limit
           then save_step w uid twts limit fa ta
                  = (Inr (Some (drop (nat limit - length h) twts, int (length fs) + 2,
                               int (length twts) - int (length (take (nat limit - length h) twts)))), w') \<and>
                log_state w' uid u (int (length fs) + 2) (fs @ [h @ take (nat limit - length h) twts])
           else save_step w uid twts limit fa ta = (Inr None, w') \<and>
                log_state w' uid u (int (length fs) + 1) (fs @ [h @ twts]))"
proof -
  define n where "n = int (length fs)"
  define counts where "counts = map (\<lambda>s. int (length s)) (segs_of fs h)"
  define written where "written = take (nat limit - length h) twts"
  have lm: "log_meta w uid (n + 1) counts"
    and fl: "\<And>k. files w (seg_path u k)
            = (if 1 \<le> k \<and> k \<le> int (length (segs_of fs h))
               then Some (write_lines (segs_of fs h ! nat (k - 1))) else None)"
    using st by (simp_all add: log_state_def n_def counts_def)
  have g1: "(case fa of None \<Rightarrow> get_data w (Usr uid) ''twt_db.file_num'' None (PInt 1)
                       | Some f \<Rightarrow> (Inr f, w)) = (Inr (PInt (n + 1)), w)"
    using fa log_meta_get_file_num [OF lm] by (auto simp: n_def)
  have tl: "(case ta of None \<Rightarrow> int (length twts) | Some m \<Rightarrow> m) = int (length twts)"
    using ta by auto
  have lc: "(if n < int (length counts) then counts ! nat n else 0) = int (length h)"
    by (auto simp: counts_def segs_of_def n_def nth_append)
  have g2: "get_data w (Usr uid) ''twt_db.line_count'' (Some n) (PInt 0)
             = (Inr (PInt (int (length h))), w)"
    using log_meta_get_line_count [OF lm, of n] lc by (simp add: n_def)
  define w3 where "w3 = w\<lparr>dirs := log_dirs u \<union> dirs w\<rparr>"
  have a: "assemble_dir w [uid, ''known_tweets''] True = (Inr (log_dir u), w3)"
    unfolding w3_def by (rule assemble_log_dir' [OF v])
  define old where "old = (case files w3 (seg_path u (n + 1)) of None \<Rightarrow> [] | Some c \<Rightarrow> c)"
  have old: "old = write_lines h"
    using fl [of "n + 1"] by (auto simp: old_def w3_def segs_of_def n_def nth_append write_lines_def)
  define w4 where "w4 = (if int (length h) < limit
                         then w3\<lparr>files := (files w3)(seg_path u (n + 1) \<mapsto> old @ write_lines written)\<rparr>
                         else w3)"
  have wr: "(if int (length h) < limit then take (nat (limit - int (length h))) twts else []) = written"
    using h by (auto simp: written_def nat_diff_distrib')
  have lm4: "log_meta w4 uid (n + 1) counts" using lm by (simp add: w4_def w3_def)
  have cpos: "n = int (length counts) \<longrightarrow> 0 < (int (length written))"
  proof
    assume "n = int (length counts)"
    then have "h = []" by (auto simp: counts_def segs_of_def n_def split: if_splits)
    then show "0 < (int (length written))" using lim tw by (cases twts) (auto simp: written_def)
  qed
  have nle: "n \<le> int (length counts)" by (simp add: counts_def segs_of_def n_def)
  define counts' where "counts' = (if n < int (length counts)
                                  then counts[nat n := counts ! nat n + (int (length written))] else counts @ [(int (length written))])"
  obtain b5 w5 where s5: "set_data w4 (Usr uid) ''twt_db.line_count'' PNone (Some n)
                  (Some (\<lambda>x. if x = PNone then Inr (PInt (int (length written))) else py_add x (int (length written)))) = (Inr b5, w5)"
    and lm5: "log_meta w5 uid (n + 1) counts'" and ms5: "meta_step w4 w5 uid ''twt_db''"
    using log_meta_set_line_count [OF lm4, of n "int (length written)"] cpos nle
    by (auto simp: counts'_def n_def)
  have s5a: "int (length h) < limit \<Longrightarrow>
      set_data (w3\<lparr>files := (files w3)(seg_path u (n + 1) \<mapsto> old @ write_lines written)\<rparr>)
        (Usr uid) ''twt_db.line_count'' PNone (Some n)
        (Some (\<lambda>x. if x = PNone then Inr (PInt (int (length written)))
                   else py_add x (int (length written)))) = (Inr b5, w5)"
    and s5b: "\<not> int (length h) < limit \<Longrightarrow>
      set_data w3 (Usr uid) ''twt_db.line_count'' PNone (Some n)
        (Some (\<lambda>x. if x = PNone then Inr (PInt (int (length written)))
                   else py_add x (int (length written)))) = (Inr b5, w5)"
    using s5 by (simp_all add: w4_def)
  define h' where "h' = h @ written"
  have c': "counts' = map (\<lambda>s. int (length s)) (fs @ [h'])"
    by (auto simp: counts'_def counts_def segs_of_def n_def h'_def nth_append list_update_append)
  have f4: "\<And>k. files w4 (seg_path u k)
            = (if 1 \<le> k \<and> k \<le> int (length (fs @ [h'])) then Some (write_lines ((fs @ [h']) ! nat (k - 1))) else None)"
  proof -
    fix k
    show "files w4 (seg_path u k)
            = (if 1 \<le> k \<and> k \<le> int (length (fs @ [h'])) then Some (write_lines ((fs @ [h']) ! nat (k - 1))) else None)"
    proof (cases "k = n + 1")
      case True
      show ?thesis
      proof (cases "int (length h) < limit")
        case True
        then show ?thesis using \<open>k = n + 1\<close>
          by (simp add: w4_def old h'_def write_lines_append n_def nth_append)
      next
        case False
        then have lh: "int (length h) = limit" using h by simp
        then have "written = []" by (simp add: written_def)
        moreover have "h \<noteq> []" using lh lim by auto
        ultimately show ?thesis using False \<open>k = n + 1\<close> fl [of k]
          by (simp add: w4_def w3_def h'_def segs_of_def n_def nth_append)
      qed
    next
      case False
      then have ne: "seg_path u (n + 1) \<noteq> seg_path u k" using seg_path_inj [of u "n + 1" k] by auto
      have "files w4 (seg_path u k) = files w (seg_path u k)"
        using ne by (auto simp: w4_def w3_def)
      then show ?thesis using fl [of k] False
        by (auto simp: segs_of_def n_def nth_append)
    qed
  qed
  have so4: "\<And>p. (\<forall>k. p \<noteq> seg_path u k) \<Longrightarrow> files w4 p = files w p"
    by (auto simp: w4_def w3_def)
  have d4: "dirs w4 = log_dirs u \<union> dirs w" "st_blksize w4 = st_blksize w"
    "\<And>k. meta_lookup w4 uid k = meta_lookup w uid k"
    by (simp_all add: w4_def w3_def)
  have st5: "log_state w5 uid u (n + 1) (fs @ [h'])"
    using lm5 f4 ms5 by (simp add: log_state_def c' meta_step_def)
  have so5: "same_outside_log w w5 uid u"
    using ms5 so4 d4 by (simp add: same_outside_log_def meta_step_def)
  show ?thesis
  proof (cases "int (length h) + int (length twts) > limit")
    case True
    obtain b6 w6 where s6: "set_data w5 (Usr uid) ''twt_db.file_num'' (PInt (n + 2)) None None = (Inr b6, w6)"
      and lm6: "log_meta w6 uid (n + 2) counts'" and ms6: "meta_step w5 w6 uid ''twt_db''"
      using log_meta_set_file_num [OF lm5, of "n + 2"] by blast
    have s6': "set_data w5 (Usr uid) ''twt_db.file_num'' (PInt (2 + n)) None None = (Inr b6, w6)"
      using s6 by (simp add: add.commute)
    have st6: "log_state w6 uid u (n + 2) (fs @ [h'])"
      using lm6 st5 ms6 by (simp add: log_state_def c' meta_step_def)
    have so6: "same_outside_log w w6 uid u"
      using so5 ms6 by (simp add: same_outside_log_def meta_step_def)
    have "save_step w uid twts limit fa ta
            = (Inr (Some (drop (nat (int (length written))) twts, n + 2, int (length twts) - (int (length written)))), w6)"
      using True tw
      by (simp add: save_step_def g1 tl g2 a wr seg_path_alt [symmetric]
            old_def [symmetric] s5a s5b s6 s6' Let_def)
    moreover have "drop (nat (int (length written))) twts = drop (nat limit - length h) twts"
      using True h by (auto simp: written_def min_def)
    ultimately show ?thesis using True st6 so6
      by (auto simp: n_def h'_def written_def)
  next
    case False
    then have "written = twts" by (simp add: written_def)
    moreover have "save_step w uid twts limit fa ta = (Inr None, w5)"
      using False tw
      by (simp add: save_step_def g1 tl g2 a wr seg_path_alt [symmetric]
            old_def [symmetric] s5a s5b Let_def)
    ultimately show ?thesis using False st5 so5 by (auto simp: n_def h'_def)
  qed
qed

lemma chunks_pieces: "s \<in> set (chunks n xs) \<Longrightarrow> s \<noteq> [] \<and> length s \<le> n"
proof (induction n xs rule: chunks.induct)
  case (1 n xs)
  show ?case
  proof (cases "n = 0 \<or> xs = []")
    case True
    then show ?thesis using "1.prems" by (simp add: chunks.simps [of n xs])
  next
    case False
    then have "chunks n xs = take n xs # chunks n (drop n xs)" by (simp add: chunks_step)
    then show ?thesis using "1.prems" "1.IH" [OF False] False by auto
  qed
qed

lemma concat_chunks: "0 < n \<Longrightarrow> concat (chunks n xs) = xs"
proof (induction n xs rule: chunks.induct)
  case (1 n xs)
  show ?case
  proof (cases "xs = []")
    case True
    then show ?thesis by simp
  next
    case False
    then show ?thesis using 1 by (simp add: chunks_step)
  qed
qed


lemma chunks_eq_Nil: "0 < n \<Longrightarrow> chunks n xs = [] \<longleftrightarrow> xs = []"
  by (cases "xs = []") (simp_all add: chunks_step)

lemma chunks_head_append:
  assumes "0 < n" "length h \<le> n" "length h + length ts > n"
  shows "chunks n (h @ ts) = (h @ take (n - length h) ts) # chunks n (drop (n - length h) ts)"
proof -
  have "h @ ts \<noteq> []" using assms by auto
  then show ?thesis using assms by (simp add: chunks_step)
qed

lemma chunks_append_last:
  assumes "0 < n" "chunks n xs \<noteq> []"
  shows "chunks n (xs @ ts) = butlast (chunks n xs) @ chunks n (last (chunks n xs) @ ts)"
  using assms
proof (induction n xs rule: chunks.induct)
  case (1 n xs)
  have ne: "xs \<noteq> []" using "1.prems" by auto
  then have c: "chunks n xs = take n xs # chunks n (drop n xs)" using "1.prems" by (simp add: chunks_step)
  show ?case
  proof (cases "length xs \<le> n")
    case True
    then show ?thesis using "1.prems" ne by (simp add: chunks_short)
  next
    case False
    then have d: "drop n xs \<noteq> []" by simp
    then have cd: "chunks n (drop n xs) \<noteq> []" using "1.prems" by (simp add: chunks_eq_Nil)
    have "chunks n (xs @ ts) = take n xs # chunks n (drop n xs @ ts)"
      using "1.prems" ne False by (simp add: chunks_step)
    also have "chunks n (drop n xs @ ts)
                 = butlast (chunks n (drop n xs)) @ chunks n (last (chunks n (drop n xs)) @ ts)"
      using "1.IH" [OF _ "1.prems"(1) cd] ne "1.prems"(1) by simp
    finally show ?thesis using c cd by simp
  qed
qed

lemma save_explicit_new_segments:
  assumes v: "verify_dir_name uid = Inr u" and lim: "1 \<le> limit" and tw: "twts \<noteq> []"
    and st: "log_state w uid u (int (length fs) + 1) fs"
    and fa: "fa = None \<or> fa = Some (PInt (int (length fs) + 1))"
    and ta: "ta = None \<or> ta = Some (int (length twts))"
  shows "\<exists>w'. save_explicit w uid twts limit fa ta = Some (Inr (), w') \<and>
           log_state w' uid u (int (length fs) + int (length (chunks (nat limit) twts)))
              (fs @ chunks (nat limit) twts) \<and>
           same_outside_log w w' uid u"
  using tw st fa ta
proof (induction "length twts" arbitrary: twts w fs fa ta rule: less_induct)
  case less
  have L: "0 < nat limit" using lim by simp
  have st': "log_state w uid u (int (length fs) + 1) (segs_of fs [])"
    using less.prems(2) by (simp add: segs_of_def)
  obtain w1 where so: "same_outside_log w w1 uid u"
    and step: "(if int (length ([]::string list)) + int (length twts) > limit
           then save_step w uid twts limit fa ta
                  = (Inr (Some (drop (nat limit - length ([]::string list)) twts, int (length fs) + 2,
                       int (length twts) - int (length (take (nat limit - length ([]::string list)) twts)))), w1) \<and>
                log_state w1 uid u (int (length fs) + 2) (fs @ [[] @ take (nat limit - length ([]::string list)) twts])
           else save_step w uid twts limit fa ta = (Inr None, w1) \<and>
                log_state w1 uid u (int (length fs) + 1) (fs @ [[] @ twts]))"
    using save_step_head [OF v st' lim _ less.prems(1,3,4)] lim by auto
  show ?case
  proof (cases "int (length twts) > limit")
    case True
    define twts' where "twts' = drop (nat limit) twts"
    define fs' where "fs' = fs @ [take (nat limit) twts]"
    have cnd: "int (length ([]::string list)) + int (length twts) > limit" using True by simp
    note step' = step [unfolded if_P [OF cnd]]
    have e: "int (length fs') + 1 = int (length fs) + 2" by (simp add: fs'_def)
    have tl: "int (length twts) - int (length (take (nat limit - length ([]::string list)) twts)) = int (length twts')"
      using True lim by (simp add: twts'_def min_def)
    have s: "save_step w uid twts limit fa ta
               = (Inr (Some (twts', int (length fs) + 2, int (length twts'))), w1)"
      using step' tl by (simp add: twts'_def)
    have st1: "log_state w1 uid u (int (length fs') + 1) fs'"
      unfolding e unfolding fs'_def using step' by simp
    have ne: "twts' \<noteq> []" using True lim by (auto simp: twts'_def)
    have sh: "length twts' < length twts" using True lim by (simp add: twts'_def)
    obtain w' where r: "save_explicit w1 uid twts' limit (Some (PInt (int (length fs') + 1))) (Some (int (length twts')))
                          = Some (Inr (), w')"
      and st2: "log_state w' uid u (int (length fs') + int (length (chunks (nat limit) twts')))
                  (fs' @ chunks (nat limit) twts')"
      and so2: "same_outside_log w1 w' uid u"
      using less.hyps [OF sh ne st1] by blast
    have c: "chunks (nat limit) twts = take (nat limit) twts # chunks (nat limit) twts'"
      using L less.prems(1) by (simp add: chunks_step twts'_def)
    have "save_explicit w uid twts limit fa ta = Some (Inr (), w')"
      using s r unfolding e by (subst save_explicit.simps) simp
    moreover have "int (length fs') + int (length (chunks (nat limit) twts'))
                     = int (length fs) + int (length (chunks (nat limit) twts))"
      by (simp add: c fs'_def)
    moreover have "fs' @ chunks (nat limit) twts' = fs @ chunks (nat limit) twts"
      by (simp add: c fs'_def)
    ultimately have "save_explicit w uid twts limit fa ta = Some (Inr (), w') \<and>
         log_state w' uid u (int (length fs) + int (length (chunks (nat limit) twts)))
              (fs @ chunks (nat limit) twts)"
      using st2 by simp
    then have "save_explicit w uid twts limit fa ta = Some (Inr (), w')"
      and "log_state w' uid u (int (length fs) + int (length (chunks (nat limit) twts)))
              (fs @ chunks (nat limit) twts)" by simp_all
    then show ?thesis using same_outside_log_trans [OF so so2] by blast
  next
    case False
    then have s: "save_step w uid twts limit fa ta = (Inr None, w1)"
      and st1: "log_state w1 uid u (int (length fs) + 1) (fs @ [twts])"
      using step by auto
    have c: "chunks (nat limit) twts = [twts]"
      using L less.prems(1) False by (simp add: chunks_short)
    have "save_explicit w uid twts limit fa ta = Some (Inr (), w1)"
      using s by (subst save_explicit.simps) simp
    then show ?thesis using st1 so by (auto simp: c)
  qed
qed

lemma save_explicit_head:
  assumes v: "verify_dir_name uid = Inr u" and lim: "1 \<le> limit" and tw: "twts \<noteq> []"
    and st: "log_state w uid u (int (length fs) + 1) (segs_of fs h)"
    and h: "int (length h) \<le> limit"
  shows "\<exists>w'. save_explicit w uid twts limit None None = Some (Inr (), w') \<and>
           log_state w' uid u (int (length fs) + int (length (chunks (nat limit) (h @ twts))))
              (fs @ chunks (nat limit) (h @ twts)) \<and>
           same_outside_log w w' uid u"
proof -
  have L: "0 < nat limit" using lim by simp
  obtain w1 where so: "same_outside_log w w1 uid u"
    and step: "(if int (length h) + int (length twts) > limit
           then save_step w uid twts limit None None
                  = (Inr (Some (drop (nat limit - length h) twts, int (length fs) + 2,
                       int (length twts) - int (length (take (nat limit - length h) twts)))), w1) \<and>
                log_state w1 uid u (int (length fs) + 2) (fs @ [h @ take (nat limit - length h) twts])
           else save_step w uid twts limit None None = (Inr None, w1) \<and>
                log_state w1 uid u (int (length fs) + 1) (fs @ [h @ twts]))"
    using save_step_head [OF v st lim h tw, of None None] by auto
  show ?thesis
  proof (cases "int (length h) + int (length twts) > limit")
    case True
    define twts' where "twts' = drop (nat limit - length h) twts"
    define fs' where "fs' = fs @ [h @ take (nat limit - length h) twts]"
    note step' = step [unfolded if_P [OF True]]
    have e: "int (length fs') + 1 = int (length fs) + 2" by (simp add: fs'_def)
    have tl: "int (length twts) - int (length (take (nat limit - length h) twts)) = int (length twts')"
      using True lim h by (simp add: twts'_def min_def)
    have s: "save_step w uid twts limit None None
               = (Inr (Some (twts', int (length fs) + 2, int (length twts'))), w1)"
      using step' tl by (simp add: twts'_def)
    have st1: "log_state w1 uid u (int (length fs') + 1) fs'"
      unfolding e unfolding fs'_def using step' by simp
    have ne: "twts' \<noteq> []" using True h by (auto simp: twts'_def)
    obtain w' where r: "save_explicit w1 uid twts' limit (Some (PInt (int (length fs') + 1))) (Some (int (length twts')))
                          = Some (Inr (), w')"
      and st2: "log_state w' uid u (int (length fs') + int (length (chunks (nat limit) twts')))
                  (fs' @ chunks (nat limit) twts')"
      and so2: "same_outside_log w1 w' uid u"
      using save_explicit_new_segments [OF v lim ne st1] by blast
    have c: "chunks (nat limit) (h @ twts) = (h @ take (nat limit - length h) twts) # chunks (nat limit) twts'"
      unfolding twts'_def using L h True by (intro chunks_head_append) auto
    have "save_explicit w uid twts limit None None = Some (Inr (), w')"
      using s r unfolding e by (subst save_explicit.simps) simp
    moreover have "int (length fs') + int (length (chunks (nat limit) twts'))
                     = int (length fs) + int (length (chunks (nat limit) (h @ twts)))"
      by (simp add: c fs'_def)
    moreover have "fs' @ chunks (nat limit) twts' = fs @ chunks (nat limit) (h @ twts)"
      by (simp add: c fs'_def)
    ultimately have "save_explicit w uid twts limit None None = Some (Inr (), w') \<and>
         log_state w' uid u (int (length fs) + int (length (chunks (nat limit) (h @ twts))))
              (fs @ chunks (nat limit) (h @ twts))"
      using st2 by simp
    then have "save_explicit w uid twts limit None None = Some (Inr (), w')"
      and "log_state w' uid u (int (length fs) + int (length (chunks (nat limit) (h @ twts))))
              (fs @ chunks (nat limit) (h @ twts))" by simp_all
    then show ?thesis using same_outside_log_trans [OF so so2] by blast
  next
    case False
    then have s: "save_step w uid twts limit None None = (Inr None, w1)"
      and st1: "log_state w1 uid u (int (length fs) + 1) (fs @ [h @ twts])"
      using step by auto
    have c: "chunks (nat limit) (h @ twts) = [h @ twts]"
      using L tw False by (intro chunks_short) auto
    have "save_explicit w uid twts limit None None = Some (Inr (), w1)"
      using s by (subst save_explicit.simps) simp
    then show ?thesis using st1 so by (auto simp: c)
  qed
qed

lemma same_outside_log_refl: "same_outside_log w w uid u"
  by (auto simp: same_outside_log_def)

lemma append_inv:
  assumes v: "verify_dir_name uid = Inr u" and C: "0 < C"
    and inv: "log_inv w uid u C content"
  shows "\<exists>w'. save_explicit w uid twts (int C) None None = Some (Inr (), w') \<and>
           log_inv w' uid u C (content @ twts) \<and> same_outside_log w w' uid u"
proof (cases "twts = []")
  case True
  have "log_meta w uid (max 1 (int (length (chunks C content)))) (map (\<lambda>s. int (length s)) (chunks C content))"
    using inv by (simp add: log_inv_def log_state_def)
  then have "save_step w uid [] (int C) None None = (Inr None, w)" by (rule save_step_empty)
  then have "save_explicit w uid twts (int C) None None = Some (Inr (), w)"
    using True by (subst save_explicit.simps) simp
  then show ?thesis using inv True same_outside_log_refl by auto
next
  case False
  note tw = False
  have lim: "1 \<le> int C" using C by simp
  show ?thesis
  proof (cases "chunks C content = []")
    case True
    then have content: "content = []" using C by (simp add: chunks_eq_Nil)
    have st: "log_state w uid u (int (length ([]::string list list)) + 1) (segs_of [] [])"
      using inv True by (simp add: log_inv_def segs_of_def)
    obtain w' where r: "save_explicit w uid twts (int C) None None = Some (Inr (), w')"
      and st2: "log_state w' uid u (int (length ([]::string list list)) + int (length (chunks (nat (int C)) ([] @ twts))))
              ([] @ chunks (nat (int C)) ([] @ twts))"
      and so: "same_outside_log w w' uid u"
      using save_explicit_head [OF v lim tw st] by auto
    have "chunks C twts \<noteq> []" using tw C by (simp add: chunks_eq_Nil)
    then have "max 1 (int (length (chunks C twts))) = int (length (chunks C twts))"
      by (cases "chunks C twts") auto
    then have "log_inv w' uid u C (content @ twts)"
      using st2 by (simp add: log_inv_def content)
    then show ?thesis using r so by blast
  next
    case False
    define fs where "fs = butlast (chunks C content)"
    define h where "h = last (chunks C content)"
    have sg: "chunks C content = segs_of fs h"
      using False chunks_pieces [of h C content]
      by (auto simp: segs_of_def fs_def h_def)
    have hl: "int (length h) \<le> int C"
      using False chunks_pieces [of h C content] by (simp add: h_def)
    have len: "int (length (chunks C content)) = int (length fs) + 1"
      using False by (cases "chunks C content") (simp_all add: fs_def)
    have st: "log_state w uid u (int (length fs) + 1) (segs_of fs h)"
      using inv by (simp add: log_inv_def len sg [symmetric])
    obtain w' where r: "save_explicit w uid twts (int C) None None = Some (Inr (), w')"
      and st2: "log_state w' uid u (int (length fs) + int (length (chunks (nat (int C)) (h @ twts))))
              (fs @ chunks (nat (int C)) (h @ twts))"
      and so: "same_outside_log w w' uid u"
      using save_explicit_head [OF v lim tw st hl] by auto
    have c: "chunks C (content @ twts) = fs @ chunks C (h @ twts)"
      unfolding fs_def h_def by (rule chunks_append_last [OF C False])
    have "chunks C (h @ twts) \<noteq> []" using tw C by (simp add: chunks_eq_Nil)
    then have "max 1 (int (length (chunks C (content @ twts)))) = int (length fs) + int (length (chunks C (h @ twts)))"
      by (cases "chunks C (h @ twts)") (auto simp: c)
    then have "log_inv w' uid u C (content @ twts)"
      using st2 by (simp add: log_inv_def c)
    then show ?thesis using r so by blast
  qed
qed

section \<open>The end of an append\<close>

lemma default_if_nonexistent_idem:
  "default_if_nonexistent (default_if_nonexistent w i) i = default_if_nonexistent w i"
  by (simp add: default_if_nonexistent_def set_as_modified_def)

lemma get_data_default:
  "get_data (default_if_nonexistent w i) i key ix d = get_data w i key ix d"
  by (simp add: get_data_def default_if_nonexistent_idem)

lemma save_step_default:
  "save_step (default_if_nonexistent w (Usr uid)) uid twts limit None ta = save_step w uid twts limit None ta"
  by (simp add: save_step_def get_data_default)

lemma save_explicit_default:
  "save_explicit (default_if_nonexistent w (Usr uid)) uid twts limit None ta
     = save_explicit w uid twts limit None ta"
  by (subst save_explicit.simps, subst (2) save_explicit.simps) (simp add: save_step_default)

lemma save_to_file_default:
  "save_to_file (default_if_nonexistent w (Usr uid)) uid twts limit = save_to_file w uid twts limit"
  by (simp add: save_to_file_def save_explicit_default)

lemma load_from_file_default:
  "load_from_file (default_if_nonexistent w (Usr uid)) uid limit None = load_from_file w uid limit None"
  by (simp add: load_from_file_def get_data_default)

lemma fresh_log_inv:
  assumes "fresh_log w uid u"
  shows "log_inv (default_if_nonexistent w (Usr uid)) uid u C []"
    and "meta_lookup (default_if_nonexistent w (Usr uid)) uid ''temp_db'' = None"
proof -
  have l: "loaded_data w (Usr uid) = None" and f: "\<And>k. files w (seg_path u k) = None"
    using assms by (simp_all add: fresh_log_def)
  have m: "\<And>k. meta_lookup (default_if_nonexistent w (Usr uid)) uid k
              = map_of [(''twt_db'', PDict [(''file_num'', PInt 1), (''line_count'', PList [])]),
                        (''liked_tweets'', PDict [(''count'', PInt 0), (''with_external_urls'', PInt 0)]),
                        (''imgs_downloaded'', PInt 0), (''requests_made'', PInt 0)] k"
    by (simp add: default_if_nonexistent_fresh [OF l] meta_lookup_def default_vals_def)
  show "log_inv (default_if_nonexistent w (Usr uid)) uid u C []"
    using f by (simp add: log_inv_def log_state_def log_meta_def m)
  show "meta_lookup (default_if_nonexistent w (Usr uid)) uid ''temp_db'' = None"
    by (simp add: m)
qed

lemma log_inv_loaded: "log_inv w uid u C content \<Longrightarrow> \<exists>d. loaded_data w (Usr uid) = Some (PDict d)"
  by (auto simp: log_inv_def log_state_def log_meta_def dest: meta_lookupD)

lemma get_temp_file_num_absent:
  assumes "loaded_data w (Usr uid) = Some (PDict d)" "meta_lookup w uid ''temp_db'' = None" "dflt \<noteq> PNone"
  shows "get_data w (Usr uid) ''temp_db.file_num'' None dflt = (Inr dflt, w)"
proof -
  have "map_of d ''temp_db'' = None" using assms(1,2) by (simp add: meta_lookup_def)
  then show ?thesis using assms(3)
    by (simp add: get_data_loaded [OF assms(1)] dw_get_def key_temp_file_num)
qed

lemma combine_loop_zero: "k < 1 \<Longrightarrow> combine_loop w uid limit dir k = Some (Inr (), w)"
  by (subst combine_loop.simps) simp

lemma del_temp_db:
  assumes "loaded_data w (Usr uid) = Some (PDict d)"
  shows "\<exists>b d'. del_data w (Usr uid) (Some ''temp_db'')
           = (Inr b, w\<lparr>loaded_data := (loaded_data w)(Usr uid \<mapsto> PDict d')\<rparr>) \<and>
           (\<forall>k. map_of d' k = (if k = ''temp_db'' then None else map_of d k))"
proof (cases "map_of d ''temp_db''")
  case None
  have "dw_del (PDict d) ''temp_db'' = (Inr False, PDict d)"
    using None by (simp add: dw_del_def key_temp_db py_contains_def)
  then have "del_data w (Usr uid) (Some ''temp_db'')
           = (Inr False, w\<lparr>loaded_data := (loaded_data w)(Usr uid \<mapsto> PDict d)\<rparr>)"
    using assms by (simp add: del_data_def)
  moreover have "\<forall>k. map_of d k = (if k = ''temp_db'' then None else map_of d k)"
    using None by simp
  ultimately show ?thesis by blast
next
  case (Some v)
  have "dw_del (PDict d) ''temp_db'' = (Inr True, PDict (AList.delete ''temp_db'' d))"
    using Some by (simp add: dw_del_def key_temp_db py_contains_def)
  then have "del_data w (Usr uid) (Some ''temp_db'')
           = (Inr True, w\<lparr>loaded_data := (loaded_data w)(Usr uid \<mapsto> PDict (AList.delete ''temp_db'' d))\<rparr>)"
    using assms by (simp add: del_data_def)
  moreover have "\<forall>k. map_of (AList.delete ''temp_db'' d) k = (if k = ''temp_db'' then None else map_of d k)"
    by (simp add: delete_conv)
  ultimately show ?thesis by blast
qed

lemma log_state_cong:
  assumes "log_state w uid u f segs"
    and "\<And>k. files w' (seg_path u k) = files w (seg_path u k)"
    and "meta_lookup w' uid ''twt_db'' = meta_lookup w uid ''twt_db''"
  shows "log_state w' uid u f segs"
  using assms by (simp add: log_state_def log_meta_def)

lemma meta_lookup_rmtree [simp]: "meta_lookup (rmtree w d) uid k = meta_lookup w uid k"
  by (simp add: meta_lookup_def rmtree_def)

text \<open>The end of \<open>save_to_file\<close>: the temp directory is assembled, removed, and the
  key \<open>temp_db\<close> deleted.\<close>

lemma clear_temp:
  assumes v: "verify_dir_name uid = Inr u" and l: "loaded_data w (Usr uid) = Some (PDict d)"
  shows "\<exists>w'. (case assemble_dir w [uid, ''known_tweets'', ''temp''] True of
                 (Inl e, w3) \<Rightarrow> Some (Inl e, w3)
               | (Inr tmp_dirname, w3) \<Rightarrow>
                   if tmp_dirname \<in> dirs w3 then
                     (case del_data (rmtree w3 tmp_dirname) (Usr uid) (Some ''temp_db'') of
                        (Inl e, w4) \<Rightarrow> Some (Inl e, w4)
                      | (Inr _, w4) \<Rightarrow> Some (Inr (), w4))
                   else Some (Inr (), w3)) = Some (Inr (), w') \<and>
              (\<forall>p. files w' p = (if prefix (temp_dir u) p then None else files w p)) \<and>
              (\<forall>k. meta_lookup w' uid k = (if k = ''temp_db'' then None else meta_lookup w uid k)) \<and>
              temp_dir u \<notin> dirs w' \<and> st_blksize w' = st_blksize w"
proof -
  define w3 where "w3 = w\<lparr>dirs := insert (temp_dir u) (log_dirs u \<union> dirs w)\<rparr>"
  have a: "assemble_dir w [uid, ''known_tweets'', ''temp''] True = (Inr (temp_dir u), w3)"
    unfolding w3_def by (rule assemble_temp_dir [OF v])
  define w3r where "w3r = rmtree w3 (temp_dir u)"
  have l3: "loaded_data w3r (Usr uid) = Some (PDict d)"
    using l by (simp add: w3r_def w3_def rmtree_def)
  obtain b d' where dl: "del_data w3r (Usr uid) (Some ''temp_db'')
           = (Inr b, w3r\<lparr>loaded_data := (loaded_data w3r)(Usr uid \<mapsto> PDict d')\<rparr>)"
    and d': "\<forall>k. map_of d' k = (if k = ''temp_db'' then None else map_of d k)"
    using del_temp_db [OF l3] by blast
  define w' where "w' = w3r\<lparr>loaded_data := (loaded_data w3r)(Usr uid \<mapsto> PDict d')\<rparr>"
  have m: "\<And>k. meta_lookup w uid k = map_of d k" using l by (simp add: meta_lookup_def)
  have "\<And>k. meta_lookup w' uid k = (if k = ''temp_db'' then None else meta_lookup w uid k)"
    using l unfolding w'_def w3r_def w3_def by (simp add: meta_lookup_def d' rmtree_def)
  moreover have "\<And>p. files w' p = (if prefix (temp_dir u) p then None else files w p)"
    by (simp add: w'_def w3r_def w3_def rmtree_def)
  moreover have "temp_dir u \<notin> dirs w'" "st_blksize w' = st_blksize w"
    by (simp_all add: w'_def w3r_def w3_def rmtree_def)
  moreover have "temp_dir u \<in> dirs w3" by (simp add: w3_def)
  ultimately show ?thesis
    using a dl by (simp add: w3r_def [symmetric] w'_def [symmetric])
qed

lemma log_inv_after_clear:
  assumes "log_inv w uid u C content"
    and "\<forall>p. files w' p = (if prefix (temp_dir u) p then None else files w p)"
    and "\<forall>k. meta_lookup w' uid k = (if k = ''temp_db'' then None else meta_lookup w uid k)"
  shows "log_inv w' uid u C content"
  unfolding log_inv_def
proof (rule log_state_cong)
  show "log_state w uid u (max 1 (int (length (chunks C content)))) (chunks C content)"
    using assms(1) by (simp add: log_inv_def)
  show "\<And>k. files w' (seg_path u k) = files w (seg_path u k)"
    using assms(2) seg_not_under_temp [of u] by simp
  show "meta_lookup w' uid ''twt_db'' = meta_lookup w uid ''twt_db''"
    using assms(3) by simp
qed

lemma save_to_file_plain:
  assumes v: "verify_dir_name uid = Inr u"
    and C: "C = nat (min (max limit0 1000) 10000)"
    and inv: "log_inv w uid u C content"
    and nt: "meta_lookup w uid ''temp_db'' = None"
  shows "\<exists>w'. save_to_file w uid twts limit0 = Some (Inr (), w') \<and>
           log_inv w' uid u C (content @ twts) \<and>
           meta_lookup w' uid ''temp_db'' = None \<and>
           temp_dir u \<notin> dirs w' \<and> st_blksize w' = st_blksize w \<and>
           (\<forall>p. (\<forall>k. p \<noteq> seg_path u k) \<longrightarrow>
                files w' p = (if prefix (temp_dir u) p then None else files w p))"
proof -
  have Cpos: "0 < C" and lim: "min (max limit0 1000) 10000 = int C" using C by auto
  obtain w1 where s1: "save_explicit w uid twts (int C) None None = Some (Inr (), w1)"
    and inv1: "log_inv w1 uid u C (content @ twts)" and so1: "same_outside_log w w1 uid u"
    using append_inv [OF v Cpos inv] by blast
  obtain d1 where l1: "loaded_data w1 (Usr uid) = Some (PDict d1)"
    using log_inv_loaded [OF inv1] by blast
  have nt1: "meta_lookup w1 uid ''temp_db'' = None"
    using so1 nt by (simp add: same_outside_log_def)
  define w2 where "w2 = w1\<lparr>dirs := insert (temp_dir u) (log_dirs u \<union> dirs w1)\<rparr>"
  have a2: "assemble_dir w1 [uid, ''known_tweets'', ''temp''] True = (Inr (temp_dir u), w2)"
    unfolding w2_def by (rule assemble_temp_dir [OF v])
  have l2: "loaded_data w2 (Usr uid) = Some (PDict d1)" using l1 by (simp add: w2_def)
  have nt2: "meta_lookup w2 uid ''temp_db'' = None" using nt1 by (simp add: w2_def)
  have g2: "get_data w2 (Usr uid) ''temp_db.file_num'' None (PInt 0) = (Inr (PInt 0), w2)"
    by (rule get_temp_file_num_absent [OF l2 nt2]) simp
  have c2: "combine_saves_with_temp w1 uid (int C) = Some (Inr (), w2)"
    by (simp add: combine_saves_with_temp_def a2 g2 combine_loop_zero)
  obtain w' where cl: "(case assemble_dir w2 [uid, ''known_tweets'', ''temp''] True of
                 (Inl e, w3) \<Rightarrow> Some (Inl e, w3)
               | (Inr tmp_dirname, w3) \<Rightarrow>
                   if tmp_dirname \<in> dirs w3 then
                     (case del_data (rmtree w3 tmp_dirname) (Usr uid) (Some ''temp_db'') of
                        (Inl e, w4) \<Rightarrow> Some (Inl e, w4)
                      | (Inr _, w4) \<Rightarrow> Some (Inr (), w4))
                   else Some (Inr (), w3)) = Some (Inr (), w')"
    and f': "\<forall>p. files w' p = (if prefix (temp_dir u) p then None else files w2 p)"
    and m': "\<forall>k. meta_lookup w' uid k = (if k = ''temp_db'' then None else meta_lookup w2 uid k)"
    and d': "temp_dir u \<notin> dirs w'" "st_blksize w' = st_blksize w2"
    using clear_temp [OF v l2] by blast
  have inv2: "log_inv w2 uid u C (content @ twts)"
    using inv1 by (simp add: log_inv_def w2_def)
  have inv': "log_inv w' uid u C (content @ twts)"
    by (rule log_inv_after_clear [OF inv2 f' m'])
  have s: "save_to_file w uid twts limit0 = Some (Inr (), w')"
    using s1 c2 cl by (simp add: save_to_file_def lim Let_def)
  have fr: "\<forall>p. (\<forall>k. p \<noteq> seg_path u k) \<longrightarrow>
                files w' p = (if prefix (temp_dir u) p then None else files w p)"
    using f' so1 by (simp add: same_outside_log_def w2_def)
  have "st_blksize w' = st_blksize w"
    using d'(2) so1 by (simp add: same_outside_log_def w2_def)
  then show ?thesis using s inv' m' d'(1) fr by auto
qed

section \<open>Loading the log\<close>

lemma length_remdups_rev: "length (remdups (rev s)) = length (remdups s)"
  by (simp add: length_remdups_card_conv)

text \<open>
  The walk of \<open>load_from_file\<close> over segment files that hold well-formed IDs: every
  segment gives its distinct IDs from its last line to its first, and the walk stops
  when the limit is reached.
\<close>

lemma load_segments_log:
  assumes v: "verify_dir_name uid = Inr u"
    and ids: "\<forall>s\<in>set segs. \<forall>t\<in>set s. id_ok t"
  shows "(\<forall>k. 1 \<le> k \<and> k \<le> int (length segs) \<longrightarrow>
            files w (seg_path u k) = Some (write_lines (segs ! nat (k - 1)))) \<Longrightarrow>
         1 \<le> L \<Longrightarrow> L \<le> 10000 \<Longrightarrow> n \<le> length segs \<Longrightarrow>
         fst (load_segments w uid L (int n))
           = Inr (take (nat L) (concat (map (\<lambda>s. rev (remdups s)) (rev (take n segs)))))"
proof (induction n arbitrary: w L)
  case 0
  then show ?case by (simp add: load_segments_none)
next
  case (Suc n)
  define s where "s = segs ! n"
  define X where "X = concat (map (\<lambda>s. rev (remdups s)) (rev (take n segs)))"
  define w1 where "w1 = w\<lparr>dirs := log_dirs u \<union> dirs w\<rparr>"
  have n: "n < length segs" using Suc.prems(4) by simp
  have sin: "s \<in> set segs" using n by (simp add: s_def)
  have p: "files w (seg_path u (int (Suc n))) = Some (write_lines s)"
    using Suc.prems(1) [rule_format, of "int (Suc n)"] n by (simp add: s_def)
  have g: "readline_reverse (write_lines s) (st_blksize w) = (rev s, None)"
    using readline_reverse_write_lines [of s] ids sin by simp
  have ll: "load_limit L = L" using Suc.prems(2,3) by (rule load_limit_id)
  have lp: "load_loop L (rev s) None [] 0
            = Inr (take (nat L) (rev (remdups s)), int (min (nat L) (length (remdups s))))"
    using load_loop_take [OF Suc.prems(2), of "rev s"] by (simp add: length_remdups_rev)
  have tk: "take (Suc n) segs = take n segs @ [s]"
    using n by (simp add: take_Suc_conv_app_nth s_def)
  have target: "concat (map (\<lambda>s. rev (remdups s)) (rev (take (Suc n) segs))) = rev (remdups s) @ X"
    by (simp add: tk X_def)
  have one: "1 \<le> int (Suc n)" by simp
  have step: "load_segments w uid L (int (Suc n))
        = (if L > int (min (nat L) (length (remdups s)))
           then extend_with (take (nat L) (rev (remdups s)))
                  (load_segments w1 uid (L - int (min (nat L) (length (remdups s)))) (int (Suc n) - 1))
           else (Inr (take (nat L) (rev (remdups s))), w1))"
    using load_segments_present [OF one v p, of L]
    by (simp add: Let_def g ll lp w1_def [symmetric])
  show ?case
  proof (cases "length (remdups s) < nat L")
    case True
    define L' where "L' = L - int (length (remdups s))"
    have L': "1 \<le> L'" "L' \<le> 10000" "nat L' = nat L - length (remdups s)"
      using True Suc.prems(2,3) by (auto simp: L'_def)
    have m: "min (nat L) (length (remdups s)) = length (remdups s)" using True by simp
    have f1: "\<forall>k. 1 \<le> k \<and> k \<le> int (length segs) \<longrightarrow>
            files w1 (seg_path u k) = Some (write_lines (segs ! nat (k - 1)))"
      using Suc.prems(1) by (simp add: w1_def)
    have ih: "fst (load_segments w1 uid L' (int n)) = Inr (take (nat L') X)"
      unfolding X_def using Suc.IH [OF f1 L'(1,2)] n by simp
    have e: "int (Suc n) - 1 = int n" by simp
    have "fst (load_segments w uid L (int (Suc n))) = Inr (rev (remdups s) @ take (nat L') X)"
      unfolding step m e L'_def [symmetric] using True Suc.prems(2) ih
      by (simp add: fst_extend_with)
    then show ?thesis unfolding target using True L'(3) by simp
  next
    case False
    then have m: "min (nat L) (length (remdups s)) = nat L" by simp
    have "fst (load_segments w uid L (int (Suc n))) = Inr (take (nat L) (rev (remdups s)))"
      unfolding step m using Suc.prems(2) by simp
    then show ?thesis unfolding target using False by simp
  qed
qed

lemma distinct_concat_pieces: "distinct (concat xss) \<Longrightarrow> xs \<in> set xss \<Longrightarrow> distinct xs"
  by (induction xss) auto

lemma load_from_file_log:
  assumes v: "verify_dir_name uid = Inr u" and C: "0 < C"
    and inv: "log_inv w uid u C content"
    and ids: "\<forall>t\<in>set content. id_ok t"
  shows "fst (load_from_file w uid limit None)
         = Inr (take (nat (load_limit limit))
                  (concat (map (\<lambda>s. rev (remdups s)) (rev (chunks C content)))))"
proof -
  define segs where "segs = chunks C content"
  have st: "log_state w uid u (max 1 (int (length segs))) segs"
    using inv by (simp add: log_inv_def segs_def)
  have meta: "log_meta w uid (max 1 (int (length segs))) (map (\<lambda>s. int (length s)) segs)"
    using st by (simp add: log_state_def)
  have fl: "\<forall>k. files w (seg_path u k)
            = (if 1 \<le> k \<and> k \<le> int (length segs) then Some (write_lines (segs ! nat (k - 1))) else None)"
    using st by (simp add: log_state_def)
  have lf: "load_from_file w uid limit None = load_segments w uid limit (max 1 (int (length segs)))"
    by (simp add: load_from_file_def log_meta_get_file_num [OF meta])
  have cc: "concat segs = content" unfolding segs_def by (rule concat_chunks [OF C])
  have sids: "\<forall>s\<in>set segs. \<forall>t\<in>set s. id_ok t"
    using ids cc by (metis UN_I set_concat)
  have lr: "1 \<le> load_limit limit" "load_limit limit \<le> 10000" by (rule load_limit_range)+
  show ?thesis
  proof (cases "segs = []")
    case True
    have "files w (seg_path u 1) = None" using fl True by simp
    then have "load_segments w uid limit 1 = (Inr [], w\<lparr>dirs := log_dirs u \<union> dirs w\<rparr>)"
      using load_segments_missing [of 1 uid u w limit] v by simp
    then show ?thesis using True lf by (simp add: segs_def [symmetric])
  next
    case False
    then have m: "max 1 (int (length segs)) = int (length segs)" by (cases segs) auto
    have f1: "\<forall>k. 1 \<le> k \<and> k \<le> int (length segs) \<longrightarrow>
            files w (seg_path u k) = Some (write_lines (segs ! nat (k - 1)))"
      using fl by simp
    have "fst (load_segments w uid (load_limit limit) (int (length segs)))
          = Inr (take (nat (load_limit limit)) (concat (map (\<lambda>s. rev (remdups s)) (rev (take (length segs) segs)))))"
      by (rule load_segments_log [OF v sids f1 lr]) simp
    then show ?thesis unfolding lf m by (simp add: load_segments_limit segs_def [symmetric])
  qed
qed

lemma load_from_file_log_distinct:
  assumes v: "verify_dir_name uid = Inr u" and C: "0 < C"
    and inv: "log_inv w uid u C content"
    and ids: "\<forall>t\<in>set content. id_ok t" and d: "distinct content"
  shows "fst (load_from_file w uid limit None) = Inr (take (nat (load_limit limit)) (rev content))"
proof -
  define segs where "segs = chunks C content"
  have cc: "concat segs = content" unfolding segs_def by (rule concat_chunks [OF C])
  have "\<And>s. s \<in> set (rev segs) \<Longrightarrow> rev (remdups s) = rev s"
    using d cc distinct_concat_pieces [of segs] by (simp add: distinct_remdups_id)
  then have e: "map (\<lambda>s. rev (remdups s)) (rev segs) = map rev (rev segs)"
    by (intro map_cong) simp_all
  have "rev content = concat (map rev (rev segs))"
    unfolding cc [symmetric] by (rule rev_concat)
  then have "concat (map (\<lambda>s. rev (remdups s)) (rev segs)) = rev content"
    unfolding e by simp
  then show ?thesis
    using load_from_file_log [OF v C inv ids, of limit] by (simp add: segs_def)
qed

section \<open>Sequences of appends\<close>

lemma capacity_range: "1000 \<le> capacity l" "capacity l \<le> 10000" "0 < capacity l"
  by (simp_all add: capacity_def)

lemma append_all_inv:
  assumes v: "verify_dir_name uid = Inr u"
  shows "log_inv w uid u (capacity limit0) content \<Longrightarrow> meta_lookup w uid ''temp_db'' = None \<Longrightarrow>
         \<exists>w'. append_all w uid batches limit0 = Some (Inr (), w') \<and>
              log_inv w' uid u (capacity limit0) (content @ concat batches) \<and>
              meta_lookup w' uid ''temp_db'' = None \<and> st_blksize w' = st_blksize w \<and>
              (\<forall>p. (\<forall>k. p \<noteq> seg_path u k) \<and> \<not> prefix (temp_dir u) p \<longrightarrow> files w' p = files w p)"
proof (induction batches arbitrary: w content)
  case Nil
  then show ?case by simp
next
  case (Cons b bs)
  obtain w1 where s: "save_to_file w uid b limit0 = Some (Inr (), w1)"
    and i1: "log_inv w1 uid u (capacity limit0) (content @ b)"
    and t1: "meta_lookup w1 uid ''temp_db'' = None"
    and b1: "st_blksize w1 = st_blksize w"
    and f1: "\<forall>p. (\<forall>k. p \<noteq> seg_path u k) \<longrightarrow>
                files w1 p = (if prefix (temp_dir u) p then None else files w p)"
    using save_to_file_plain [OF v capacity_def Cons.prems, of b] by blast
  obtain w' where a: "append_all w1 uid bs limit0 = Some (Inr (), w')"
    and i': "log_inv w' uid u (capacity limit0) ((content @ b) @ concat bs)"
    and t': "meta_lookup w' uid ''temp_db'' = None" and b': "st_blksize w' = st_blksize w1"
    and f': "\<forall>p. (\<forall>k. p \<noteq> seg_path u k) \<and> \<not> prefix (temp_dir u) p \<longrightarrow> files w' p = files w1 p"
    using Cons.IH [OF i1 t1] by blast
  have "append_all w uid (b # bs) limit0 = Some (Inr (), w')" using s a by simp
  moreover have "\<forall>p. (\<forall>k. p \<noteq> seg_path u k) \<and> \<not> prefix (temp_dir u) p \<longrightarrow> files w' p = files w p"
    using f1 f' by simp
  ultimately show ?case using i' t' b' b1 by simp
qed

lemma append_all_default:
  "bs \<noteq> [] \<Longrightarrow> append_all (default_if_nonexistent w (Usr uid)) uid bs limit0 = append_all w uid bs limit0"
  by (cases bs) (simp_all add: save_to_file_default)

text \<open>
  After the batches have been appended to a fresh log, the record, loaded if it was
  not, and the segment files are those of the log that holds the IDs of the batches in
  order, cut into segments of the capacity.
\<close>

lemma append_all_fresh:
  assumes v: "verify_dir_name uid = Inr u" and fr: "fresh_log w uid u"
  shows "\<exists>w'. append_all w uid batches limit0 = Some (Inr (), w') \<and>
              log_inv (default_if_nonexistent w' (Usr uid)) uid u (capacity limit0) (concat batches) \<and>
              meta_lookup (default_if_nonexistent w' (Usr uid)) uid ''temp_db'' = None \<and>
              st_blksize w' = st_blksize w"
proof (cases "batches = []")
  case True
  then show ?thesis using fresh_log_inv [OF fr] by simp
next
  case False
  define w0 where "w0 = default_if_nonexistent w (Usr uid)"
  have i0: "log_inv w0 uid u (capacity limit0) []" and t0: "meta_lookup w0 uid ''temp_db'' = None"
    unfolding w0_def by (rule fresh_log_inv [OF fr])+
  obtain w' where a: "append_all w0 uid batches limit0 = Some (Inr (), w')"
    and i': "log_inv w' uid u (capacity limit0) ([] @ concat batches)"
    and t': "meta_lookup w' uid ''temp_db'' = None" and b': "st_blksize w' = st_blksize w0"
    using append_all_inv [OF v i0 t0] by blast
  have l: "loaded_data w' (Usr uid) \<noteq> None" using log_inv_loaded [OF i'] by auto
  have d: "default_if_nonexistent w' (Usr uid) = w'" by (rule default_if_nonexistent_loaded [OF l])
  have "st_blksize w0 = st_blksize w"
    unfolding w0_def by (rule default_if_nonexistent_frame) simp_all
  then show ?thesis
    using a i' t' b' False by (simp add: d w0_def append_all_default)
qed

section \<open>Numbered IDs\<close>

lemma is_digit_plain: "is_digit c \<Longrightarrow> plain_char c"
  by (auto simp: is_digit_def plain_char_def is_space_def)

lemma id_ok_str_nat: "id_ok (str_nat n)"
  using str_nat_digits [of n] str_nat_nonempty [of n]
  by (auto simp: id_ok_def list_all_iff is_digit_plain)

lemma numbered_from_length [simp]: "length (numbered_from a b) = b - a"
  by (simp add: numbered_from_def)

lemma numbered_from_distinct: "distinct (numbered_from a b)"
  unfolding numbered_from_def
  by (simp add: distinct_map inj_on_def) (metis str_nat_inj)

lemma numbered_from_id_ok: "\<forall>t\<in>set (numbered_from a b). id_ok t"
  by (auto simp: numbered_from_def id_ok_str_nat)






lemma fresh_init_world: "fresh_log init_world uid u"
  by (simp add: fresh_log_def init_world_def)

section \<open>Round trip\<close>





lemma big_world_load:
  "fst (load_from_file big_world ''2244994945'' limit None)
     = Inr (take (nat (load_limit limit)) (rev (numbered_from 0 10001)))"
proof -
  obtain w1 where a: "append_all init_world ''2244994945'' [numbered_from 0 10001] 5000 = Some (Inr (), w1)"
    and i: "log_inv (default_if_nonexistent w1 (Usr ''2244994945'')) ''2244994945'' ''2244994945/''
              (capacity 5000) (concat [numbered_from 0 10001])"
    using append_all_fresh [OF verify_uid_example fresh_init_world] by blast
  have b: "big_world = w1" unfolding big_world_def a by simp
  have i': "log_inv (default_if_nonexistent w1 (Usr ''2244994945'')) ''2244994945'' ''2244994945/''
              (capacity 5000) (numbered_from 0 10001)"
    using i by simp
  show ?thesis
    unfolding b
    using load_from_file_log_distinct [OF verify_uid_example capacity_range(3) i'
            numbered_from_id_ok numbered_from_distinct, of limit]
    by (simp add: load_from_file_default)
qed


section \<open>A limit below 1\<close>

lemma load_from_file_limit:
  "load_from_file w uid (load_limit limit) fnum = load_from_file w uid limit fnum"
  by (simp add: load_from_file_def load_segments_limit split: option.splits prod.splits sum.splits pyval.splits)

lemma concat_rev_segments:
  "concat (map (\<lambda>s. rev (remdups s)) (rev segs)) = rev (concat (map remdups segs))"
  by (induction segs) simp_all

text \<open>
  Claim C6, as the code has it. A limit below 1 is the limit 10000, not "all". For a
  user ID that \<open>verify_dir_name\<close> accepts and segment files 1 to \<open>length segs\<close> that
  hold well-formed IDs, possibly repeated, \<open>load_from_file\<close> on the highest segment
  returns, segment by segment from the highest down, the distinct IDs of the segment
  from its last line to its first, as many as the corrected limit allows: the whole
  history when the limit is below 1 and these are at most 10000, with no ID twice
  when no ID is in two segments. A call without a segment number is the call on the
  segment number of the metadata.
\<close>

theorem load_nonpositive_limit:
  assumes "verify_dir_name uid = Inr u"
    and "\<forall>s\<in>set segs. \<forall>t\<in>set s. id_ok t"
    and "\<forall>k. 1 \<le> k \<and> k \<le> int (length segs) \<longrightarrow>
            files w (seg_path u k) = Some (write_lines (segs ! nat (k - 1)))"
  shows
   "(limit < 1 \<longrightarrow> load_from_file w uid limit fnum = load_from_file w uid 10000 fnum) \<and>
    fst (load_from_file w uid limit (Some (int (length segs))))
      = Inr (take (nat (load_limit limit)) (concat (map (\<lambda>s. rev (remdups s)) (rev segs)))) \<and>
    (limit < 1 \<and> sum_list (map (\<lambda>s. length (remdups s)) segs) \<le> 10000 \<longrightarrow>
       fst (load_from_file w uid limit (Some (int (length segs))))
         = Inr (concat (map (\<lambda>s. rev (remdups s)) (rev segs)))) \<and>
    (distinct (concat (map remdups segs)) \<longrightarrow>
       distinct (take (nat (load_limit limit)) (concat (map (\<lambda>s. rev (remdups s)) (rev segs))))) \<and>
    (\<forall>n w1. get_data w (Usr uid) ''twt_db.file_num'' None PNone = (Inr (PInt n), w1) \<longrightarrow>
       files w1 = files w \<and> st_blksize w1 = st_blksize w \<and>
       load_from_file w uid limit None = load_from_file w1 uid limit (Some n))"
proof -
  define X where "X = concat (map (\<lambda>s. rev (remdups s)) (rev segs))"
  have a: "load_from_file w uid limit fnum = load_from_file w uid 10000 fnum" if "limit < 1"
  proof -
    have "load_limit limit = 10000" using that by (simp add: load_limit_def)
    then show ?thesis using load_from_file_limit [of w uid limit fnum] by simp
  qed
  have lr: "1 \<le> load_limit limit" "load_limit limit \<le> 10000" by (rule load_limit_range)+
  have "fst (load_segments w uid (load_limit limit) (int (length segs)))
        = Inr (take (nat (load_limit limit))
                 (concat (map (\<lambda>s. rev (remdups s)) (rev (take (length segs) segs)))))"
    by (rule load_segments_log [OF assms(1,2,3) lr]) simp
  then have b: "fst (load_from_file w uid limit (Some (int (length segs)))) = Inr (take (nat (load_limit limit)) X)"
    by (simp add: load_from_file_some load_segments_limit X_def)
  have len: "length X = sum_list (map (\<lambda>s. length (remdups s)) segs)"
    unfolding X_def concat_rev_segments by (simp add: length_concat comp_def)
  have c: "fst (load_from_file w uid limit (Some (int (length segs)))) = Inr X"
    if "limit < 1 \<and> sum_list (map (\<lambda>s. length (remdups s)) segs) \<le> 10000"
  proof -
    have "load_limit limit = 10000" using that by (simp add: load_limit_def)
    then show ?thesis using b that len by simp
  qed
  have d: "distinct (take (nat (load_limit limit)) X)" if "distinct (concat (map remdups segs))"
    unfolding X_def concat_rev_segments using that by (simp add: distinct_take)
  have e: "files w1 = files w \<and> st_blksize w1 = st_blksize w \<and>
           load_from_file w uid limit None = load_from_file w1 uid limit (Some n)"
    if "get_data w (Usr uid) ''twt_db.file_num'' None PNone = (Inr (PInt n), w1)" for n w1
    using that get_data_files [OF that] get_data_frame [of st_blksize w "Usr uid" "''twt_db.file_num''" None PNone]
    by (simp add: load_from_file_def)
  show ?thesis using a b c d e unfolding X_def by blast
qed

lemma repeat_world_files:
  "\<forall>k. 1 \<le> k \<and> k \<le> int (length [[''5'', ''6'', ''5''], [''7'']]) \<longrightarrow>
       files repeat_world (seg_path ''2244994945/'' k)
         = Some (write_lines ([[''5'', ''6'', ''5''], [''7'']] ! nat (k - 1)))"
proof (intro allI impI)
  fix k :: int assume "1 \<le> k \<and> k \<le> int (length [[''5'', ''6'', ''5''], [''7'']])"
  then consider "k = 1" | "k = 2" by fastforce
  then show "files repeat_world (seg_path ''2244994945/'' k)
         = Some (write_lines ([[''5'', ''6'', ''5''], [''7'']] ! nat (k - 1)))"
    using seg_path_inj [of "''2244994945/''" 1 2]
    by cases (auto simp: repeat_world_def)
qed

theorem load_nonpositive_limit_witness:
  "fst (load_from_file repeat_world ''2244994945'' 0 (Some 2)) = Inr [''7'', ''5'', ''6''] \<and>
   load_from_file repeat_world ''2244994945'' (- 3) (Some 2)
     = load_from_file repeat_world ''2244994945'' 10000 (Some 2)"
proof -
  have i: "\<forall>s\<in>set [[''5'', ''6'', ''5''], [''7'']]. \<forall>t\<in>set s. id_ok t" using id_ok_digits by simp
  note t = load_nonpositive_limit [OF verify_uid_example i repeat_world_files]
  have "fst (load_from_file repeat_world ''2244994945'' 0 (Some (int (length [[''5'', ''6'', ''5''], [''7'']]))))
      = Inr (take (nat (load_limit 0)) (concat (map (\<lambda>s. rev (remdups s)) (rev [[''5'', ''6'', ''5''], [''7'']]))))"
    using t [of 0] by blast
  then have a: "fst (load_from_file repeat_world ''2244994945'' 0 (Some 2)) = Inr [''7'', ''5'', ''6'']"
    by (simp add: load_limit_def)
  have b: "load_from_file repeat_world ''2244994945'' (- 3) (Some 2)
     = load_from_file repeat_world ''2244994945'' 10000 (Some 2)"
    using t [of "- 3" "Some 2"] by simp
  show ?thesis using a b by simp
qed

lemma dup_world_files:
  "\<forall>k. 1 \<le> k \<and> k \<le> int (length [[''7''], [''7'']]) \<longrightarrow>
       files dup_world (seg_path ''2244994945/'' k) = Some (write_lines ([[''7''], [''7'']] ! nat (k - 1)))"
proof (intro allI impI)
  fix k :: int assume "1 \<le> k \<and> k \<le> int (length [[''7''], [''7'']])"
  then consider "k = 1" | "k = 2" by fastforce
  then show "files dup_world (seg_path ''2244994945/'' k) = Some (write_lines ([[''7''], [''7'']] ! nat (k - 1)))"
    using seg_path_inj [of "''2244994945/''" 1 2]
    by cases (auto simp: dup_world_def)
qed

text \<open>
  The claim as stated fails twice. With 10001 IDs in the log, \<open>load_from_file\<close> with the
  limit 0 returns the newest 10000 and not the whole history; and an ID that is in two
  segment files is returned twice.
\<close>

theorem load_nonpositive_limit_counterexample:
  "length (numbered_from 0 10001) = 10001 \<and>
   fst (load_from_file big_world ''2244994945'' 0 None) = Inr (take 10000 (rev (numbered_from 0 10001))) \<and>
   fst (load_from_file big_world ''2244994945'' 0 None) \<noteq> Inr (rev (numbered_from 0 10001)) \<and>
   fst (load_from_file dup_world ''2244994945'' 0 (Some 2)) = Inr [''7'', ''7'']"
proof -
  have l: "fst (load_from_file big_world ''2244994945'' 0 None)
     = Inr (take 10000 (rev (numbered_from 0 10001)))"
    using big_world_load [of 0] by (simp add: load_limit_def)
  have "length (take 10000 (rev (numbered_from 0 10001))) \<noteq> length (rev (numbered_from 0 10001))"
    by simp
  then have n: "take 10000 (rev (numbered_from 0 10001)) \<noteq> rev (numbered_from 0 10001)"
    by metis
  have i: "\<forall>s\<in>set [[''7''], [''7'']]. \<forall>t\<in>set s. id_ok t" using id_ok_digits by simp
  have "fst (load_segments dup_world ''2244994945'' (load_limit 0) (int (length [[''7''], [''7'']])))
      = Inr (take (nat (load_limit 0)) (concat (map (\<lambda>s. rev (remdups s)) (rev (take (length [[''7''], [''7'']]) [[''7''], [''7'']])))))"
    by (rule load_segments_log [OF verify_uid_example i dup_world_files load_limit_range]) simp
  then have d: "fst (load_from_file dup_world ''2244994945'' 0 (Some 2)) = Inr [''7'', ''7'']"
    by (simp add: load_from_file_some load_segments_limit) (simp add: load_limit_def)
  show ?thesis using l n d by simp
qed

section \<open>Rotation\<close>







section \<open>A run of main\<close>

lemma load_from_file_fresh:
  assumes "verify_dir_name uid = Inr u" "loaded_data w (Usr uid) = None" "files w (seg_path u 1) = None"
  shows "load_from_file w uid limit None
          = (Inr [], (default_if_nonexistent w (Usr uid))\<lparr>dirs := log_dirs u \<union> dirs w\<rparr>)"
proof -
  define w1 where "w1 = default_if_nonexistent w (Usr uid)"
  have l: "loaded_data w1 (Usr uid) = Some default_vals"
    using assms(2) by (simp add: w1_def default_if_nonexistent_fresh)
  have g: "get_data w (Usr uid) ''twt_db.file_num'' None PNone = (Inr (PInt 1), w1)"
    using l by (simp add: get_data_def w1_def [symmetric] dw_get_def key_twt_file_num
                  default_vals_def py_getitem_def)
  have f: "files w1 (seg_path u 1) = None" "dirs w1 = dirs w"
    using assms(3) by (simp_all add: w1_def default_if_nonexistent_frame)
  show ?thesis
    using load_segments_missing [of 1 uid u w1 limit] assms(1) f g
    by (simp add: load_from_file_def w1_def [symmetric])
qed

lemma user_lookup:
  "fetch_user_ids run_env [''someone''] init_world
     = (Inr [''2244994945''],
        init_world\<lparr>sent := [''https://api.twitter.com/2/users/by?usernames=someone''],
                   requests_count := 1\<rparr>)"
  by (simp add: fetch_user_ids_def user_id_url_def connect_to_endpoint_def init_world_def
        max_requests_def run_env_def plain_tweet_def Let_def)

lemma run_page:
  "processed_tweets w = [] \<Longrightarrow>
   process_response_for_imgs run_env w uid (photo_page [''7'', ''6''] (Some None)) False
     = (Inr [0, 2, 2],
        w\<lparr>saved_imgs := saved_imgs w @ [''https://pbs.twimg.com/media/7.jpg'', ''https://pbs.twimg.com/media/6.jpg''],
          new_processed_tweets := new_processed_tweets w @ [''7'', ''6'']\<rparr>)"
  by (simp add: process_response_for_imgs_def photo_page_def photo_tweet_def gen_media2url_def
        gen_id2usr_def process_item_def process_tweet_for_media_def download_img_def run_env_def Let_def)

lemma run_loop:
  assumes "processed_tweets w = []" "requests_count w = 1" "\<not> is_verbose w"
  shows "process_usr_for_liked run_env w ''2244994945'' None False
     = (Inr (0, 2, 2),
        w\<lparr>sent := sent w @ [page_url ''2244994945'' None], requests_count := 2,
          saved_imgs := saved_imgs w @ [''https://pbs.twimg.com/media/7.jpg'', ''https://pbs.twimg.com/media/6.jpg''],
          new_processed_tweets := new_processed_tweets w @ [''7'', ''6'']\<rparr>)"
proof -
  define w1 where "w1 = w\<lparr>sent := sent w @ [page_url ''2244994945'' None], requests_count := 2\<rparr>"
  have np: "\<not> prefix ''https://api.twitter.com/2/users/by'' (page_url ''2244994945'' None)"
    by (simp add: page_url_def liked_tweets_url_def Let_def)
  have c: "connect_to_endpoint run_env (page_url ''2244994945'' None) w
            = (Inr (photo_page [''7'', ''6''] (Some None)), w1)"
    using assms(2) np
    by (simp add: connect_to_endpoint_def max_requests_def run_env_def Let_def w1_def)
  have p: "process_response_for_imgs run_env w1 ''2244994945'' (photo_page [''7'', ''6''] (Some None)) False
     = (Inr [0, 2, 2],
        w1\<lparr>saved_imgs := saved_imgs w1 @ [''https://pbs.twimg.com/media/7.jpg'', ''https://pbs.twimg.com/media/6.jpg''],
          new_processed_tweets := new_processed_tweets w1 @ [''7'', ''6'']\<rparr>)"
    by (rule run_page) (simp add: w1_def assms(1))
  have "fetch_loop run_env ''2244994945'' False None 0 0 0 w
     = (Inr 0, 2, 2, w1\<lparr>saved_imgs := saved_imgs w1 @ [''https://pbs.twimg.com/media/7.jpg'', ''https://pbs.twimg.com/media/6.jpg''],
          new_processed_tweets := new_processed_tweets w1 @ [''7'', ''6'']\<rparr>)"
    using c p assms(3)
    by (subst fetch_loop.simps)
       (simp add: Let_def page_url_def [symmetric] unpack3_def photo_page_fields w1_def)
  then show ?thesis by (simp add: process_usr_for_liked_def w1_def)
qed

lemma key_counters:
  "key_prefix ''liked_tweets.count'' = [''liked_tweets'']" "key_last ''liked_tweets.count'' = ''count''"
  "key_prefix ''imgs_downloaded'' = []" "key_last ''imgs_downloaded'' = ''imgs_downloaded''"
  by code_simp+

lemma run_counters:
  assumes "loaded_data w BuiltinId = None" "BuiltinId \<notin> set (data_modified w)" "requests_count w = 2"
  shows "\<exists>w6 w7. set_data w BuiltinId ''liked_tweets.count'' PNone None (Some (\<lambda>x. py_add x 2)) = (Inr True, w6) \<and>
      set_data w6 BuiltinId ''imgs_downloaded'' PNone None (Some (\<lambda>x. py_add x 2)) = (Inr True, w7) \<and>
      requests_count w7 = 2 \<and>
      set_data w7 BuiltinId ''requests_made'' PNone None (Some (\<lambda>x. py_add x 2))
        = (Inr True, w\<lparr>loaded_data := (loaded_data w)(BuiltinId \<mapsto> counted_record 2 2 2),
                        data_modified := data_modified w @ [BuiltinId]\<rparr>)"
  using assms
  by (simp add: set_data_def default_if_nonexistent_def set_as_modified_def dw_set_def key_counters
        key_requests_made set_in_dict_def py_contains_def py_getitem_def py_setitem_def py_add_def
        default_vals_def counted_record_def Let_def)

text \<open>
  Claim C1. After the fetch loop the engine should commit the accumulated IDs to the
  log of the synced user and update that user's counters. In the run above \<open>main\<close>
  returns normally with the two new IDs accumulated in \<open>new_processed_tweets\<close>, and
  then: no file has been written (no segment file holds the IDs, \<open>main\<close> calls neither
  \<open>save_to_file\<close> nor \<open>save_temp\<close>); the record of user 2244994945 is still the
  default record, with its counters at 0; the counters of the run are in a record
  stored under the Python builtin \<open>id\<close>, the key that \<open>main\<close> passes to \<open>set_data\<close>.
\<close>

theorem run_commits_nothing:
  "fst run_result = Inr () \<and>
   new_processed_tweets (snd run_result) = [''7'', ''6''] \<and>
   files (snd run_result) = Map.empty \<and>
   loaded_data (snd run_result) (Usr ''2244994945'') = Some default_vals \<and>
   loaded_data (snd run_result) BuiltinId = Some (counted_record 2 2 2) \<and>
   data_modified (snd run_result) = [Usr ''2244994945'', BuiltinId]"
proof -
  define w1 where "w1 = init_world\<lparr>sent := [''https://api.twitter.com/2/users/by?usernames=someone''],
                   requests_count := 1\<rparr>"
  define w2 where "w2 = (default_if_nonexistent w1 (Usr ''2244994945''))\<lparr>dirs := log_dirs ''2244994945/'' \<union> dirs w1\<rparr>"
  have i: "init_world\<lparr>is_verbose := False\<rparr> = init_world" by (simp add: init_world_def)
  have s1: "fetch_user_ids run_env [''someone''] init_world = (Inr [''2244994945''], w1)"
    unfolding w1_def by (rule user_lookup)
  have f1: "loaded_data w1 (Usr ''2244994945'') = None" "files w1 (seg_path ''2244994945/'' 1) = None"
    by (simp_all add: w1_def init_world_def)
  have s2: "load_from_file w1 ''2244994945'' 3000 None = (Inr [], w2)"
    unfolding w2_def by (rule load_from_file_fresh [OF verify_uid_example f1])
  have w2: "w2 = w1\<lparr>loaded_data := [Usr ''2244994945'' \<mapsto> default_vals],
                     data_modified := [Usr ''2244994945''],
                     dirs := log_dirs ''2244994945/''\<rparr>"
    by (simp add: w2_def default_if_nonexistent_fresh [OF f1(1)]) (simp add: w1_def init_world_def)
  obtain w4 where s4: "assemble_dir (w2\<lparr>processed_tweets := []\<rparr>) [''2244994945'', ''downloaded images''] True
                        = (Inr ''./2244994945/downloaded images/'', w4)"
    and w4: "w4 = w2\<lparr>processed_tweets := [], dirs := dirs w4\<rparr>"
    by (simp add: assemble_dir_def verify_uid_example verify_downloaded create_folder_eq)
  have f4: "processed_tweets w4 = []" "requests_count w4 = 1" "\<not> is_verbose w4"
      "loaded_data w4 = [Usr ''2244994945'' \<mapsto> default_vals]" "data_modified w4 = [Usr ''2244994945'']"
      "files w4 = Map.empty" "new_processed_tweets w4 = []" "external_urls w4 = []"
    by (subst w4, simp add: w2 w1_def init_world_def)+
  define w5 where "w5 = w4\<lparr>sent := sent w4 @ [page_url ''2244994945'' None], requests_count := 2,
          saved_imgs := saved_imgs w4 @ [''https://pbs.twimg.com/media/7.jpg'', ''https://pbs.twimg.com/media/6.jpg''],
          new_processed_tweets := new_processed_tweets w4 @ [''7'', ''6'']\<rparr>"
  have s5: "process_usr_for_liked run_env w4 ''2244994945'' None False = (Inr (0, 2, 2), w5)"
    unfolding w5_def by (rule run_loop [OF f4(1,2,3)])
  have f5: "loaded_data w5 BuiltinId = None" "BuiltinId \<notin> set (data_modified w5)" "requests_count w5 = 2"
    by (simp_all add: w5_def f4)
  obtain w6 w7 where
    s6: "set_data w5 BuiltinId ''liked_tweets.count'' PNone None (Some (\<lambda>x. py_add x 2)) = (Inr True, w6)"
    and s7: "set_data w6 BuiltinId ''imgs_downloaded'' PNone None (Some (\<lambda>x. py_add x 2)) = (Inr True, w7)"
    and r7: "requests_count w7 = 2"
    and s8: "set_data w7 BuiltinId ''requests_made'' PNone None (Some (\<lambda>x. py_add x 2))
        = (Inr True, w5\<lparr>loaded_data := (loaded_data w5)(BuiltinId \<mapsto> counted_record 2 2 2),
                        data_modified := data_modified w5 @ [BuiltinId]\<rparr>)"
    using run_counters [OF f5] by blast
  define w8 where "w8 = w5\<lparr>loaded_data := (loaded_data w5)(BuiltinId \<mapsto> counted_record 2 2 2),
                        data_modified := data_modified w5 @ [BuiltinId]\<rparr>"
  have s9: "dump_external_urls_for_usr run_env w8 ''2244994945'' = (Inr (), w8)"
    by (simp add: dump_external_urls_for_usr_def w8_def w5_def f4)
  have rr: "run_result = (Inr (), w8)"
    using s1 s2 s4 s5 s6 s7 r7 s8 s9
    by (simp add: run_result_def main_def i w8_def)
  show ?thesis unfolding rr by (simp add: w8_def w5_def f4)
qed

end
